theory Spec2Isabelle
  imports
    Main
    "HOL-Library.Char_ord"
    "HOL-Library.List_Lexorder"
    "HOL-Library.AList"
    "HOL-Library.Sublist"
    "HOL-Library.Word"
begin

unbundle bit_operations_syntax

chapter \<open>The file-backed blockchain store of thenewboston-node\<close>

text \<open>
  A shallow embedding of the storage engine: the file naming functions and the block and
  blockchain state stores of \<^verbatim>\<open>business_logic/blockchain/file_blockchain.py\<close>, the
  compressing file store of \<^verbatim>\<open>business_logic/storages/file_system.py\<close>, the dictionary
  codec of \<^verbatim>\<open>business_logic/models\<close> and the node enumeration of
  \<^verbatim>\<open>business_logic/blockchain/base/network.py\<close>. Python integers are \<open>int\<close>, strings
  are \<open>string\<close>, byte strings are lists of 8-bit words, exceptions are values of the
  type \<open>error\<close>, and every operation on the file system takes the state of the file
  system and returns the new one together with its result or the exception it raised.
\<close>

section \<open>File names\<close>

subsection \<open>Python's \<open>str\<close> on integers, \<open>str.zfill\<close> and \<open>int\<close> on digit strings\<close>

definition digit_char :: "nat \<Rightarrow> char" where
  "digit_char d = ''0123456789'' ! d"

fun str_nat :: "nat \<Rightarrow> string" where
  "str_nat n = (if n < 10 then [digit_char n] else str_nat (n div 10) @ [digit_char (n mod 10)])"

declare str_nat.simps [simp del]

text \<open>\<^verbatim>\<open>str(i)\<close>: the decimal digits, after a minus sign when \<open>i\<close> is negative.\<close>

definition str_int :: "int \<Rightarrow> string" where
  "str_int i = (if i < 0 then CHR ''-'' # str_nat (nat (- i)) else str_nat (nat i))"

text \<open>
  \<^verbatim>\<open>s.zfill(width)\<close> pads on the left with the digit \<open>0\<close>, whatever the characters of
  \<open>s\<close> are, and puts the padding after a leading sign.
\<close>

definition zfill :: "string \<Rightarrow> nat \<Rightarrow> string" where
  "zfill s width =
     (if width \<le> length s then s
      else (case s of
              c # rest \<Rightarrow>
                if c = CHR ''+'' \<or> c = CHR ''-''
                then c # replicate (width - length s) CHR ''0'' @ rest
                else replicate (width - length s) CHR ''0'' @ s
            | [] \<Rightarrow> replicate (width - length s) CHR ''0'' @ s))"

text \<open>\<^verbatim>\<open>int(s)\<close> on a string of ASCII digits, most significant digit first.\<close>

fun nat_of_digits :: "string \<Rightarrow> nat \<Rightarrow> nat" where
  "nat_of_digits [] acc = acc"
| "nat_of_digits (c # cs) acc = nat_of_digits cs (acc * 10 + (of_char c - 48))"

subsection \<open>Names of blockchain state files and of block chunk files\<close>

definition ORDER_OF_BLOCKCHAIN_STATE_FILE :: nat where
  "ORDER_OF_BLOCKCHAIN_STATE_FILE = 10"

definition ORDER_OF_BLOCK :: nat where
  "ORDER_OF_BLOCK = 20"

definition LAST_BLOCK_NUMBER_NONE_SENTINEL :: string where
  "LAST_BLOCK_NUMBER_NONE_SENTINEL = ''!''"

definition make_blockchain_state_filename :: "int option \<Rightarrow> string" where
  "make_blockchain_state_filename last_block_number =
     (let prefix = zfill (case last_block_number of
                            None \<Rightarrow> LAST_BLOCK_NUMBER_NONE_SENTINEL
                          | Some n \<Rightarrow> str_int n) ORDER_OF_BLOCKCHAIN_STATE_FILE
      in prefix @ ''-arf.msgpack'')"

definition make_block_chunk_filename :: "int \<Rightarrow> int \<Rightarrow> string" where
  "make_block_chunk_filename start end_no =
     (let start_block_str = zfill (str_int start) ORDER_OF_BLOCK;
          end_block_str = zfill (str_int end_no) ORDER_OF_BLOCK
      in start_block_str @ ''-'' @ end_block_str @ ''-block-chunk.msgpack'')"

section \<open>Accounts and nodes\<close>

text \<open>
  The dataclasses \<^verbatim>\<open>Node\<close>, \<^verbatim>\<open>PrimaryValidatorSchedule\<close> and \<^verbatim>\<open>AccountState\<close>.
  Every attribute of an account state may be \<^verbatim>\<open>None\<close> (\<^verbatim>\<open>AccountState()\<close> is built
  without arguments in \<^verbatim>\<open>utils/blockchain_state.py\<close>), and so may the \<^verbatim>\<open>identifier\<close> of a
  node (the field \<open>identifier_of\<close>): the blockchain state codec removes it on the way out and tests it against
  \<^verbatim>\<open>None\<close> on the way in.
\<close>

record Node =
  identifier_of :: "string option"
  network_addresses :: "string list"
  fee_amount :: int
  fee_account :: "string option"

record PrimaryValidatorSchedule =
  begin_block_number :: int
  end_block_number :: int

record AccountState =
  balance :: "int option"
  balance_lock :: "string option"
  node :: "Node option"
  primary_validator_schedule :: "PrimaryValidatorSchedule option"

subsection \<open>\<^verbatim>\<open>NetworkMixin.yield_nodes\<close>\<close>

text \<open>
  The loop of \<^verbatim>\<open>yield_nodes\<close> over the pairs that \<^verbatim>\<open>yield_account_states\<close> produces,
  with the set \<^verbatim>\<open>known_accounts\<close> as an argument. An account state without a node is
  passed over before the set is looked at.
\<close>

fun yield_nodes_from :: "string set \<Rightarrow> (string \<times> AccountState) list \<Rightarrow> Node list" where
  "yield_nodes_from known_accounts [] = []"
| "yield_nodes_from known_accounts ((account_number, account_state) # rest) =
     (case node account_state of
        None \<Rightarrow> yield_nodes_from known_accounts rest
      | Some n \<Rightarrow>
          if account_number \<in> known_accounts then yield_nodes_from known_accounts rest
          else n # yield_nodes_from (insert account_number known_accounts) rest)"

text \<open>
  \<^verbatim>\<open>yield_account_states\<close> belongs to the base class of the blockchain; it is an argument
  here, a function from the block number to the pairs it yields, in order.
\<close>

definition yield_nodes ::
  "(int option \<Rightarrow> (string \<times> AccountState) list) \<Rightarrow> int option \<Rightarrow> Node list" where
  "yield_nodes yield_account_states block_number =
     yield_nodes_from {} (yield_account_states block_number)"

text \<open>
  For the statement about \<^verbatim>\<open>yield_nodes\<close>: the account states that carry a node, as
  pairs of account number and node, in the order of the input; and the loop once more,
  keeping the account number beside every node it yields.
\<close>

fun node_entries :: "(string \<times> AccountState) list \<Rightarrow> (string \<times> Node) list" where
  "node_entries [] = []"
| "node_entries ((account_number, account_state) # rest) =
     (case node account_state of
        None \<Rightarrow> node_entries rest
      | Some n \<Rightarrow> (account_number, n) # node_entries rest)"

fun yield_nodes_tagged ::
  "string set \<Rightarrow> (string \<times> AccountState) list \<Rightarrow> (string \<times> Node) list" where
  "yield_nodes_tagged known_accounts [] = []"
| "yield_nodes_tagged known_accounts ((account_number, account_state) # rest) =
     (case node account_state of
        None \<Rightarrow> yield_nodes_tagged known_accounts rest
      | Some n \<Rightarrow>
          if account_number \<in> known_accounts then yield_nodes_tagged known_accounts rest
          else (account_number, n) #
               yield_nodes_tagged (insert account_number known_accounts) rest)"

section \<open>The compressing file store\<close>

subsection \<open>Exceptions, byte strings and the file system\<close>

datatype error =
    ValueError
  | OSError
  | KeyError
  | ZeroDivisionError
  | AssertionError
  | FinalizedFileWriteError
  | BlockchainLockedError
  | BlockchainUnlockedError
  | ValidationError
  | TypeError
  | AttributeError

type_synonym bytes = "8 word list"

text \<open>
  The file system holds regular files under their resolved absolute paths, each with
  its bytes and the permission bits of its \<^verbatim>\<open>st_mode\<close>. Directories are not entries of
  it: the calls that only create directories (\<^verbatim>\<open>os.makedirs\<close> in
  \<^verbatim>\<open>ensure_directory_exists_for_file_path\<close>, \<^verbatim>\<open>temp_dir.mkdir\<close>) leave it as it is, and
  symbolic links are not modelled. \<open>new_file_mode\<close> is the mode that the operating
  system gives to a file the atomic writer creates.
\<close>

record file_entry =
  content :: bytes
  st_mode :: nat

record filesystem =
  files :: "(string \<times> file_entry) list"
  new_file_mode :: nat

definition os_path_exists :: "filesystem \<Rightarrow> string \<Rightarrow> bool" where
  "os_path_exists fs path = (map_of (files fs) path \<noteq> None)"

definition os_remove :: "filesystem \<Rightarrow> string \<Rightarrow> (error + unit) \<times> filesystem" where
  "os_remove fs path =
     (if os_path_exists fs path
      then (Inr (), fs\<lparr>files := AList.delete path (files fs)\<rparr>)
      else (Inl OSError, fs))"

text \<open>\<^verbatim>\<open>os.rename\<close> replaces the destination when it exists.\<close>

definition os_rename :: "filesystem \<Rightarrow> string \<Rightarrow> string \<Rightarrow> (error + unit) \<times> filesystem" where
  "os_rename fs source destination =
     (case map_of (files fs) source of
        None \<Rightarrow> (Inl OSError, fs)
      | Some f \<Rightarrow>
          if source = destination then (Inr (), fs)
          else (Inr (), fs\<lparr>files := AList.update destination f
                                         (AList.delete source (files fs))\<rparr>))"

subsection \<open>Permission bits\<close>

definition S_IWUSR :: nat where "S_IWUSR = 128"
definition S_IWGRP :: nat where "S_IWGRP = 16"
definition S_IWOTH :: nat where "S_IWOTH = 2"

definition STAT_WRITE_PERMS_ALL :: nat where
  "STAT_WRITE_PERMS_ALL = S_IWGRP OR S_IWUSR OR S_IWOTH"

definition drop_write_permissions :: "filesystem \<Rightarrow> string \<Rightarrow> (error + unit) \<times> filesystem" where
  "drop_write_permissions fs filename =
     (case map_of (files fs) filename of
        None \<Rightarrow> (Inl OSError, fs)
      | Some f \<Rightarrow>
          let current_mode = st_mode f;
              mode = current_mode - (current_mode AND STAT_WRITE_PERMS_ALL)
          in (Inr (), fs\<lparr>files := AList.update filename (f\<lparr>st_mode := mode\<rparr>) (files fs)\<rparr>))"

definition has_write_permissions :: "filesystem \<Rightarrow> string \<Rightarrow> error + bool" where
  "has_write_permissions fs filename =
     (case map_of (files fs) filename of
        None \<Rightarrow> Inl OSError
      | Some f \<Rightarrow> Inr (st_mode f AND STAT_WRITE_PERMS_ALL \<noteq> 0))"

subsection \<open>The compression tables\<close>

text \<open>
  \<^verbatim>\<open>gzip\<close>, \<^verbatim>\<open>bz2\<close> and \<^verbatim>\<open>lzma\<close> are libraries of the Python distribution. Their
  functions are the fields of a record; a decompression function raises on bytes it
  cannot read. The two tables are dictionaries, that is lists of pairs in the order of
  their keys in the source.
\<close>

record compression_library =
  gzip_compress :: "bytes \<Rightarrow> bytes"
  bz2_compress :: "bytes \<Rightarrow> bytes"
  lzma_compress :: "bytes \<Rightarrow> bytes"
  gzip_decompress :: "bytes \<Rightarrow> error + bytes"
  bz2_decompress :: "bytes \<Rightarrow> error + bytes"
  lzma_decompress :: "bytes \<Rightarrow> error + bytes"

definition COMPRESSION_FUNCTIONS ::
  "compression_library \<Rightarrow> (string \<times> (bytes \<Rightarrow> bytes)) list" where
  "COMPRESSION_FUNCTIONS lib =
     [(''gz'', gzip_compress lib), (''bz2'', bz2_compress lib), (''xz'', lzma_compress lib)]"

definition DECOMPRESSION_FUNCTIONS ::
  "compression_library \<Rightarrow> (string \<times> (bytes \<Rightarrow> error + bytes)) list" where
  "DECOMPRESSION_FUNCTIONS lib =
     [(''gz'', gzip_decompress lib), (''bz2'', bz2_decompress lib), (''xz'', lzma_decompress lib)]"

text \<open>\<^verbatim>\<open>filename[:-len(compressor) - 1]\<close> at the first key the name ends with.\<close>

fun strip_compression_extension_from :: "string list \<Rightarrow> string \<Rightarrow> string" where
  "strip_compression_extension_from [] filename = filename"
| "strip_compression_extension_from (compressor # rest) filename =
     (if suffix (''.'' @ compressor) filename
      then take (length filename - (length compressor + 1)) filename
      else strip_compression_extension_from rest filename)"

definition strip_compression_extension :: "compression_library \<Rightarrow> string \<Rightarrow> string" where
  "strip_compression_extension lib filename =
     strip_compression_extension_from (map fst (DECOMPRESSION_FUNCTIONS lib)) filename"

definition exist_compressed_file :: "compression_library \<Rightarrow> filesystem \<Rightarrow> string \<Rightarrow> bool" where
  "exist_compressed_file lib fs file_path =
     list_ex (\<lambda>decompressor. os_path_exists fs (file_path @ ''.'' @ decompressor))
       (map fst (DECOMPRESSION_FUNCTIONS lib))"

subsection \<open>Paths\<close>

text \<open>
  \<^verbatim>\<open>pathlib\<close> on POSIX paths, as far as \<^verbatim>\<open>_get_absolute_path\<close> uses it: a path is its
  list of components (empty components and \<open>.\<close> are dropped when a path is built),
  \<^verbatim>\<open>resolve\<close> removes \<open>..\<close> together with the component before it, and a resolved
  absolute path is printed with a slash before every component. \<^verbatim>\<open>resolve\<close> raises
  \<^verbatim>\<open>ValueError\<close> on a path that holds a null character.
\<close>

fun split_on :: "char \<Rightarrow> string \<Rightarrow> string list" where
  "split_on sep [] = [[]]"
| "split_on sep (c # cs) =
     (if c = sep then [] # split_on sep cs
      else (case split_on sep cs of
              w # ws \<Rightarrow> (c # w) # ws
            | [] \<Rightarrow> [[c]]))"

definition path_parts :: "string \<Rightarrow> string list" where
  "path_parts path = filter (\<lambda>part. part \<noteq> [] \<and> part \<noteq> ''.'') (split_on CHR ''/'' path)"

definition is_absolute :: "string \<Rightarrow> bool" where
  "is_absolute path = (case path of c # _ \<Rightarrow> c = CHR ''/'' | [] \<Rightarrow> False)"

fun resolve_parts :: "string list \<Rightarrow> string list \<Rightarrow> string list" where
  "resolve_parts resolved [] = resolved"
| "resolve_parts resolved (part # rest) =
     (if part = ''..'' then resolve_parts (butlast resolved) rest
      else resolve_parts (resolved @ [part]) rest)"

definition str_path :: "string list \<Rightarrow> string" where
  "str_path parts = (if parts = [] then ''/'' else concat (map ((#) CHR ''/'') parts))"

subsection \<open>\<^verbatim>\<open>FileSystemStorage\<close>\<close>

text \<open>
  The attributes of a store: \<open>base_path\<close>, already resolved, as its components; the
  names of its compressors, in order; and the compression library it runs on.
\<close>

record FileSystemStorage =
  base_path :: "string list"
  compressors :: "string list"
  library :: compression_library

definition get_absolute_path' :: "FileSystemStorage \<Rightarrow> string \<Rightarrow> error + string" where
  "get_absolute_path' self file_path =
     (if CHR 0x00 \<in> set file_path then Inl ValueError
      else
        let abs_path =
              (if is_absolute file_path then resolve_parts [] (path_parts file_path)
               else resolve_parts (base_path self) (path_parts file_path))
        in if is_absolute file_path then Inl ValueError
           else if \<not> prefix (base_path self) abs_path then Inl ValueError
           else Inr (str_path abs_path))"

definition is_finalized' :: "compression_library \<Rightarrow> filesystem \<Rightarrow> string \<Rightarrow> bool" where
  "is_finalized' lib fs file_path =
     (exist_compressed_file lib fs file_path \<or>
      (os_path_exists fs file_path \<and> has_write_permissions fs file_path = Inr False))"

datatype write_mode = WB | AB

text \<open>
  Modelled from the spec: \<^verbatim>\<open>atomic_write_append\<close> of \<^verbatim>\<open>core/utils/atomic_write.py\<close>,
  which is not among the sources. The spec: the data is written to a temporary file
  that is renamed over the target on success; in append mode the target, if present, is
  first copied into the temporary file. So mode \<open>WB\<close> replaces the content of the target
  by the data and mode \<open>AB\<close> puts the data after it; the file that results is the
  temporary file, with the mode of a new file.
\<close>

definition atomic_write_append :: "filesystem \<Rightarrow> string \<Rightarrow> write_mode \<Rightarrow> bytes \<Rightarrow> filesystem" where
  "atomic_write_append fs file_path mode binary_data =
     (let copied =
            (case mode of
               WB \<Rightarrow> []
             | AB \<Rightarrow> (case map_of (files fs) file_path of None \<Rightarrow> [] | Some f \<Rightarrow> content f))
      in fs\<lparr>files := AList.update file_path
                        \<lparr>content = copied @ binary_data, st_mode = new_file_mode fs\<rparr>
                        (files fs)\<rparr>)"

definition write_file' ::
  "compression_library \<Rightarrow> filesystem \<Rightarrow> string \<Rightarrow> bytes \<Rightarrow> write_mode \<Rightarrow>
   (error + unit) \<times> filesystem" where
  "write_file' lib fs file_path binary_data mode =
     (if is_finalized' lib fs file_path then (Inl FinalizedFileWriteError, fs)
      else (Inr (), atomic_write_append fs file_path mode binary_data))"

text \<open>
  The loop of \<^verbatim>\<open>_compress\<close> over the compressors, with \<^verbatim>\<open>best_filename\<close> and
  \<^verbatim>\<open>best_data\<close> as a pair. A name that is not a key of the table raises \<^verbatim>\<open>KeyError\<close>;
  the ratio \<^verbatim>\<open>compressed_size / len(original_data)\<close>, an argument of the logging call,
  raises \<^verbatim>\<open>ZeroDivisionError\<close> on an empty file.
\<close>

fun compress_loop ::
  "compression_library \<Rightarrow> string \<Rightarrow> bytes \<Rightarrow> string list \<Rightarrow> string \<times> bytes \<Rightarrow>
   error + (string \<times> bytes)" where
  "compress_loop lib file_path original_data [] best = Inr best"
| "compress_loop lib file_path original_data (compressor # rest) (best_filename, best_data) =
     (case map_of (COMPRESSION_FUNCTIONS lib) compressor of
        None \<Rightarrow> Inl KeyError
      | Some compress_function \<Rightarrow>
          let compressed_data = compress_function original_data;
              compressed_size = length compressed_data
          in if length original_data = 0 then Inl ZeroDivisionError
             else if compressed_size < length best_data
             then compress_loop lib file_path original_data rest
                    (file_path @ ''.'' @ compressor, compressed_data)
             else compress_loop lib file_path original_data rest (best_filename, best_data))"

definition compress' ::
  "FileSystemStorage \<Rightarrow> filesystem \<Rightarrow> string \<Rightarrow> (error + string) \<times> filesystem" where
  "compress' self fs file_path =
     (if compressors self = [] then (Inr file_path, fs)
      else
        (case map_of (files fs) file_path of
           None \<Rightarrow> (Inl OSError, fs)
         | Some f \<Rightarrow>
             let original_data = content f in
             (case compress_loop (library self) file_path original_data (compressors self)
                     (file_path, original_data) of
                Inl e \<Rightarrow> (Inl e, fs)
              | Inr (best_filename, best_data) \<Rightarrow>
                  if best_filename \<noteq> file_path
                  then
                    (case write_file' (library self) fs best_filename best_data WB of
                       (Inl e, fs1) \<Rightarrow> (Inl e, fs1)
                     | (Inr u, fs1) \<Rightarrow>
                         (case os_remove fs1 file_path of
                            (Inl e, fs2) \<Rightarrow> (Inl e, fs2)
                          | (Inr v, fs2) \<Rightarrow> (Inr best_filename, fs2)))
                  else (Inr best_filename, fs))))"

definition finalize' ::
  "FileSystemStorage \<Rightarrow> filesystem \<Rightarrow> string \<Rightarrow> (error + unit) \<times> filesystem" where
  "finalize' self fs file_path =
     (case compress' self fs file_path of
        (Inl e, fs1) \<Rightarrow> (Inl e, fs1)
      | (Inr new_filename, fs1) \<Rightarrow> drop_write_permissions fs1 new_filename)"

definition persist' ::
  "FileSystemStorage \<Rightarrow> filesystem \<Rightarrow> string \<Rightarrow> bytes \<Rightarrow> write_mode \<Rightarrow> bool \<Rightarrow>
   (error + unit) \<times> filesystem" where
  "persist' self fs file_path binary_data mode is_final =
     (case get_absolute_path' self file_path of
        Inl e \<Rightarrow> (Inl e, fs)
      | Inr abs_path \<Rightarrow>
          (case write_file' (library self) fs abs_path binary_data mode of
             (Inl e, fs1) \<Rightarrow> (Inl e, fs1)
           | (Inr u, fs1) \<Rightarrow>
               if is_final then finalize' self fs1 abs_path else (Inr (), fs1)))"

definition save ::
  "FileSystemStorage \<Rightarrow> filesystem \<Rightarrow> string \<Rightarrow> bytes \<Rightarrow> bool \<Rightarrow>
   (error + unit) \<times> filesystem" where
  "save self fs file_path binary_data is_final =
     persist' self fs file_path binary_data WB is_final"

definition append_to ::
  "FileSystemStorage \<Rightarrow> filesystem \<Rightarrow> string \<Rightarrow> bytes \<Rightarrow> bool \<Rightarrow>
   (error + unit) \<times> filesystem" where
  "append_to self fs file_path binary_data is_final =
     persist' self fs file_path binary_data AB is_final"

text \<open>
  The loop of \<^verbatim>\<open>load\<close> over the decompression table: a sibling that cannot be opened
  is passed over, the first one that can is decompressed, and the raw path is read
  when there is none.
\<close>

fun load_from ::
  "filesystem \<Rightarrow> string \<Rightarrow> (string \<times> (bytes \<Rightarrow> error + bytes)) list \<Rightarrow> error + bytes" where
  "load_from fs file_path [] =
     (case map_of (files fs) file_path of
        None \<Rightarrow> Inl OSError
      | Some f \<Rightarrow> Inr (content f))"
| "load_from fs file_path ((decompressor, func) # rest) =
     (case map_of (files fs) (file_path @ ''.'' @ decompressor) of
        None \<Rightarrow> load_from fs file_path rest
      | Some f \<Rightarrow> func (content f))"

definition load :: "FileSystemStorage \<Rightarrow> filesystem \<Rightarrow> string \<Rightarrow> error + bytes" where
  "load self fs file_path =
     (case get_absolute_path' self file_path of
        Inl e \<Rightarrow> Inl e
      | Inr abs_path \<Rightarrow> load_from fs abs_path (DECOMPRESSION_FUNCTIONS (library self)))"

definition finalize ::
  "FileSystemStorage \<Rightarrow> filesystem \<Rightarrow> string \<Rightarrow> (error + unit) \<times> filesystem" where
  "finalize self fs file_path =
     (case get_absolute_path' self file_path of
        Inl e \<Rightarrow> (Inl e, fs)
      | Inr abs_path \<Rightarrow> finalize' self fs abs_path)"

definition move ::
  "FileSystemStorage \<Rightarrow> filesystem \<Rightarrow> string \<Rightarrow> string \<Rightarrow> (error + unit) \<times> filesystem" where
  "move self fs source destination =
     (case get_absolute_path' self source of
        Inl e \<Rightarrow> (Inl e, fs)
      | Inr abs_source \<Rightarrow>
          (case get_absolute_path' self destination of
             Inl e \<Rightarrow> (Inl e, fs)
           | Inr abs_destination \<Rightarrow> os_rename fs abs_source abs_destination))"

definition is_finalized :: "FileSystemStorage \<Rightarrow> filesystem \<Rightarrow> string \<Rightarrow> error + bool" where
  "is_finalized self fs file_path =
     (case get_absolute_path' self file_path of
        Inl e \<Rightarrow> Inl e
      | Inr abs_path \<Rightarrow> Inr (is_finalized' (library self) fs abs_path))"

subsection \<open>Sequences of writes to one path\<close>

text \<open>
  A call of \<^verbatim>\<open>save\<close> or of \<^verbatim>\<open>append\<close> with its data and its \<^verbatim>\<open>is_final\<close> flag, and the
  run of a list of such calls on one path, which collects what every call returned or
  raised.
\<close>

datatype write_call = Save bytes bool | Append bytes bool

fun run_write_call ::
  "FileSystemStorage \<Rightarrow> filesystem \<Rightarrow> string \<Rightarrow> write_call \<Rightarrow> (error + unit) \<times> filesystem" where
  "run_write_call self fs file_path (Save binary_data is_final) =
     save self fs file_path binary_data is_final"
| "run_write_call self fs file_path (Append binary_data is_final) =
     append_to self fs file_path binary_data is_final"

fun run_write_calls ::
  "FileSystemStorage \<Rightarrow> filesystem \<Rightarrow> string \<Rightarrow> write_call list \<Rightarrow>
   (error + unit) list \<times> filesystem" where
  "run_write_calls self fs file_path [] = ([], fs)"
| "run_write_calls self fs file_path (call # calls) =
     (case run_write_call self fs file_path call of
        (r, fs1) \<Rightarrow>
          (case run_write_calls self fs1 file_path calls of
             (rs, fs2) \<Rightarrow> (r # rs, fs2)))"

subsection \<open>What a compressor of the table makes of a byte string\<close>

definition compressed_with :: "compression_library \<Rightarrow> string \<Rightarrow> bytes \<Rightarrow> bytes" where
  "compressed_with lib compressor binary_data =
     (case map_of (COMPRESSION_FUNCTIONS lib) compressor of
        None \<Rightarrow> []
      | Some compress_function \<Rightarrow> compress_function binary_data)"

definition decompressed_with :: "compression_library \<Rightarrow> string \<Rightarrow> bytes \<Rightarrow> error + bytes" where
  "decompressed_with lib decompressor binary_data =
     (case map_of (DECOMPRESSION_FUNCTIONS lib) decompressor of
        None \<Rightarrow> Inl KeyError
      | Some func \<Rightarrow> func binary_data)"

text \<open>
  The file system after the raw file \<open>fp\<close> has given way to its sibling with the suffix
  of the compressor \<open>c\<close>, which holds the bytes \<open>d\<close>.
\<close>

definition compressed_state :: "filesystem \<Rightarrow> string \<Rightarrow> string \<Rightarrow> bytes \<Rightarrow> filesystem" where
  "compressed_state fs fp c d =
     fs\<lparr>files := AList.delete fp
        (AList.update (fp @ ''.'' @ c) \<lparr>content = d, st_mode = new_file_mode fs\<rparr> (files fs))\<rparr>"


section \<open>A small store for concrete runs\<close>

text \<open>
  A compression library of three toy codecs: a run-length code under the name \<open>gz\<close>,
  and two codecs that only put a header before the bytes under the names \<open>bz2\<close> and
  \<open>xz\<close>. With it a store under \<open>/data\<close> and a file system with a read-only file, a
  file of eight equal bytes and a file of three different bytes.
\<close>

fun rle_encode :: "bytes \<Rightarrow> bytes" where
  "rle_encode [] = []"
| "rle_encode (x # xs) =
     (case rle_encode xs of
        n # y # rest \<Rightarrow> if y = x \<and> n < 255 then (n + 1) # y # rest else 1 # x # n # y # rest
      | _ \<Rightarrow> [1, x])"

fun rle_decode :: "bytes \<Rightarrow> error + bytes" where
  "rle_decode [] = Inr []"
| "rle_decode [n] = Inl OSError"
| "rle_decode (n # x # rest) =
     (case rle_decode rest of Inl e \<Rightarrow> Inl e | Inr xs \<Rightarrow> Inr (replicate (unat n) x @ xs))"

definition sample_library :: compression_library where
  "sample_library =
     \<lparr>gzip_compress = rle_encode,
      bz2_compress = (\<lambda>b. 66 # b),
      lzma_compress = (\<lambda>b. 88 # 90 # b),
      gzip_decompress = rle_decode,
      bz2_decompress =
        (\<lambda>b. case b of [] \<Rightarrow> Inl OSError | h # t \<Rightarrow> if h = 66 then Inr t else Inl OSError),
      lzma_decompress =
        (\<lambda>b. case b of
               h # h' # t \<Rightarrow> if h = 88 \<and> h' = 90 then Inr t else Inl OSError
             | _ \<Rightarrow> Inl OSError)\<rparr>"

definition sample_storage :: FileSystemStorage where
  "sample_storage =
     \<lparr>base_path = [''data''], compressors = [''gz'', ''bz2'', ''xz''],
      library = sample_library\<rparr>"

definition sample_fs :: filesystem where
  "sample_fs =
     \<lparr>files =
        [(''/data/a.bin'', \<lparr>content = [1, 2], st_mode = 292\<rparr>),
         (''/data/b.bin'', \<lparr>content = [65, 65, 65, 65, 65, 65, 65, 65], st_mode = 420\<rparr>),
         (''/data/c.bin'', \<lparr>content = [1, 2, 3], st_mode = 420\<rparr>)],
      new_file_mode = 384\<rparr>"

section \<open>The file blockchain\<close>

subsection \<open>The path optimized store\<close>

text \<open>
  Modelled from the spec: \<^verbatim>\<open>PathOptimizedFileSystemStorage\<close> of
  \<^verbatim>\<open>storages/path_optimized_file_system.py\<close>, which is not among the sources. The spec:
  a logical path is rewritten to a physical path with fan-out directories taken from
  the characters of the base name, all operations apply the rewrite uniformly, and
  \<^verbatim>\<open>list_directory\<close> yields the paths of the store with the compression suffix and the
  fan-out segments stripped, sorted in the given direction. The rewrite itself and its
  inverse are fields of the store; every method is the method of \<^verbatim>\<open>FileSystemStorage\<close>
  on the rewritten path.
\<close>

record PathOptimizedFileSystemStorage =
  storage :: FileSystemStorage
  make_optimized_file_path :: "string \<Rightarrow> string"
  logical_file_path :: "string \<Rightarrow> string"

definition po_save ::
  "PathOptimizedFileSystemStorage \<Rightarrow> filesystem \<Rightarrow> string \<Rightarrow> bytes \<Rightarrow> bool \<Rightarrow>
   (error + unit) \<times> filesystem" where
  "po_save self fs file_path binary_data is_final =
     save (storage self) fs (make_optimized_file_path self file_path) binary_data is_final"

definition po_append ::
  "PathOptimizedFileSystemStorage \<Rightarrow> filesystem \<Rightarrow> string \<Rightarrow> bytes \<Rightarrow> bool \<Rightarrow>
   (error + unit) \<times> filesystem" where
  "po_append self fs file_path binary_data is_final =
     append_to (storage self) fs (make_optimized_file_path self file_path) binary_data is_final"

definition po_load :: "PathOptimizedFileSystemStorage \<Rightarrow> filesystem \<Rightarrow> string \<Rightarrow> error + bytes" where
  "po_load self fs file_path = load (storage self) fs (make_optimized_file_path self file_path)"

definition po_finalize ::
  "PathOptimizedFileSystemStorage \<Rightarrow> filesystem \<Rightarrow> string \<Rightarrow> (error + unit) \<times> filesystem" where
  "po_finalize self fs file_path =
     finalize (storage self) fs (make_optimized_file_path self file_path)"

definition po_move ::
  "PathOptimizedFileSystemStorage \<Rightarrow> filesystem \<Rightarrow> string \<Rightarrow> string \<Rightarrow>
   (error + unit) \<times> filesystem" where
  "po_move self fs source destination =
     move (storage self) fs (make_optimized_file_path self source)
       (make_optimized_file_path self destination)"

definition po_is_finalized ::
  "PathOptimizedFileSystemStorage \<Rightarrow> filesystem \<Rightarrow> string \<Rightarrow> error + bool" where
  "po_is_finalized self fs file_path =
     is_finalized (storage self) fs (make_optimized_file_path self file_path)"

text \<open>
  The listing: the files below the base path, relative to it, without compression
  suffix and fan-out, in ascending order of the logical paths for direction \<open>1\<close>, in
  descending order for any other direction, and in the order of the file system
  without a direction.
\<close>

definition po_list_directory ::
  "PathOptimizedFileSystemStorage \<Rightarrow> filesystem \<Rightarrow> int option \<Rightarrow> string list" where
  "po_list_directory self fs sort_direction =
     (let base = concat (map ((#) CHR ''/'') (base_path (storage self))) @ ''/'';
          physical = map (drop (length base)) (filter (prefix base) (map fst (files fs)));
          logical = map (\<lambda>path. logical_file_path self
                                   (strip_compression_extension (library (storage self)) path))
                      physical
      in case sort_direction of
           None \<Rightarrow> logical
         | Some direction \<Rightarrow> if direction = 1 then sort logical else rev (sort logical))"

subsection \<open>\<^verbatim>\<open>cachetools.LRUCache\<close>\<close>

text \<open>
  The cache of the library \<^verbatim>\<open>cachetools\<close>: its entries from the least recently used to
  the most recently used. \<^verbatim>\<open>get\<close> on a key that is present moves it to the end;
  setting a key moves it to the end, after the least recently used entries have been
  evicted to make room for a new key; an item does not fit a cache of size zero
  (\<^verbatim>\<open>ValueError\<close>). A cache without entries is false where Python tests its truth.
\<close>

record ('k, 'v) LRUCache =
  maxsize :: nat
  entries :: "('k \<times> 'v) list"

definition lru_get :: "('k, 'v) LRUCache \<Rightarrow> 'k \<Rightarrow> 'v option \<times> ('k, 'v) LRUCache" where
  "lru_get cache k =
     (case map_of (entries cache) k of
        None \<Rightarrow> (None, cache)
      | Some v \<Rightarrow>
          (Some v, cache\<lparr>entries := filter (\<lambda>kv. fst kv \<noteq> k) (entries cache) @ [(k, v)]\<rparr>))"

definition lru_set :: "('k, 'v) LRUCache \<Rightarrow> 'k \<Rightarrow> 'v \<Rightarrow> error + ('k, 'v) LRUCache" where
  "lru_set cache k v =
     (if maxsize cache < 1 then Inl ValueError
      else
        let kept =
              (if map_of (entries cache) k = None
               then drop (length (entries cache) + 1 - maxsize cache) (entries cache)
               else filter (\<lambda>kv. fst kv \<noteq> k) (entries cache))
        in Inr (cache\<lparr>entries := kept @ [(k, v)]\<rparr>))"

definition lru_truth :: "('k, 'v) LRUCache \<Rightarrow> bool" where
  "lru_truth cache = (entries cache \<noteq> [])"

subsection \<open>Blocks, blockchain states and the state of the blockchain\<close>

text \<open>
  A block, with the attributes that the tests build it from. The signed change request
  is opaque here. A blockchain state is the dataclass \<^verbatim>\<open>BlockchainStateMessage\<close>; its
  timestamp is kept in its serialized form.
\<close>

record BlockMessage =
  block_number :: int
  block_identifier :: string
  timestamp :: string
  signed_change_request :: string
  updated_account_states :: "(string \<times> AccountState) list"

record Block =
  message :: BlockMessage
  block_hash :: string

record BlockchainStateMessage =
  account_states :: "(string \<times> AccountState) list"
  last_block_number :: "int option"
  last_block_identifier :: "string option"
  last_block_timestamp :: "string option"
  next_block_identifier :: "string option"

text \<open>
  What the methods of a \<^verbatim>\<open>FileBlockchain\<close> read and change: the file system, the two
  caches, and whether this process holds the file lock.
\<close>

record world =
  disk :: filesystem
  blocks_cache :: "(int, Block) LRUCache"
  blockchain_states_cache :: "(string, BlockchainStateMessage) LRUCache"
  is_locked :: bool

text \<open>
  The attributes of a \<^verbatim>\<open>FileBlockchain\<close>. The codecs of blocks and of blockchain states
  (\<^verbatim>\<open>to_messagepack\<close>, the \<^verbatim>\<open>msgpack\<close> unpacker followed by \<^verbatim>\<open>from_compact_dict\<close>, and
  \<^verbatim>\<open>from_messagepack\<close>) are not among the sources and are fields here; \<open>unpack_blocks\<close>
  gives the blocks of a chunk file in the order they were written.
\<close>

record FileBlockchain =
  block_storage :: PathOptimizedFileSystemStorage
  blockchain_states_storage :: PathOptimizedFileSystemStorage
  block_chunk_size :: int
  block_to_messagepack :: "Block \<Rightarrow> bytes"
  unpack_blocks :: "bytes \<Rightarrow> Block list"
  state_to_messagepack :: "BlockchainStateMessage \<Rightarrow> bytes"
  state_from_messagepack :: "bytes \<Rightarrow> error + BlockchainStateMessage"

subsection \<open>Parsing the name of a block chunk file\<close>

record BlockChunkFilenameMeta =
  start :: int
  end_no :: int
  compression :: "string option"

definition basename :: "string \<Rightarrow> string" where
  "basename path = rev (takeWhile (\<lambda>c. c \<noteq> CHR ''/'') (rev path))"

definition is_digit :: "char \<Rightarrow> bool" where
  "is_digit c = (c \<in> set ''0123456789'')"

definition strip_prefix :: "string \<Rightarrow> string \<Rightarrow> string option" where
  "strip_prefix p s = (if prefix p s then Some (drop (length p) s) else None)"

text \<open>
  The end of \<^verbatim>\<open>BLOCK_CHUNK_FILENAME_RE\<close>: nothing or one of the compression suffixes,
  then the end of the string, which \<open>$\<close> also finds before a last newline.
\<close>

definition match_compression_suffix :: "string \<Rightarrow> string option option" where
  "match_compression_suffix s =
     (if s = [] \<or> s = [CHR 0x0A] then Some None
      else if s = ''.gz'' \<or> s = ''.gz'' @ [CHR 0x0A] then Some (Some ''gz'')
      else if s = ''.bz2'' \<or> s = ''.bz2'' @ [CHR 0x0A] then Some (Some ''bz2'')
      else if s = ''.xz'' \<or> s = ''.xz'' @ [CHR 0x0A] then Some (Some ''xz'')
      else None)"

text \<open>
  \<^verbatim>\<open>BLOCK_CHUNK_FILENAME_RE.match\<close>: digits, a hyphen, digits, \<open>-block-chunk\<close>, any
  character but a newline (the dot of the template is not escaped), \<open>msgpack\<close> and the
  end above. The result is the two digit strings and the compression.
\<close>

definition match_block_chunk_filename :: "string \<Rightarrow> (string \<times> string \<times> string option) option" where
  "match_block_chunk_filename filename =
     (let start_digits = takeWhile is_digit filename;
          rest1 = dropWhile is_digit filename
      in if start_digits = [] then None
         else (case rest1 of
                 [] \<Rightarrow> None
               | c # rest2 \<Rightarrow>
                   if c \<noteq> CHR ''-'' then None
                   else
                     let end_digits = takeWhile is_digit rest2;
                         rest3 = dropWhile is_digit rest2
                     in if end_digits = [] then None
                        else (case strip_prefix ''-block-chunk'' rest3 of
                                None \<Rightarrow> None
                              | Some [] \<Rightarrow> None
                              | Some (dot # rest4) \<Rightarrow>
                                  if dot = CHR 0x0A then None
                                  else (case strip_prefix ''msgpack'' rest4 of
                                          None \<Rightarrow> None
                                        | Some rest5 \<Rightarrow>
                                            (case match_compression_suffix rest5 of
                                               None \<Rightarrow> None
                                             | Some suffix_name \<Rightarrow>
                                                 Some (start_digits, end_digits, suffix_name))))))"

definition get_block_chunk_filename_meta :: "string \<Rightarrow> error + BlockChunkFilenameMeta option" where
  "get_block_chunk_filename_meta file_path =
     (let filename = basename file_path in
      case match_block_chunk_filename filename of
        None \<Rightarrow> Inr None
      | Some (start_digits, end_digits, suffix_name) \<Rightarrow>
          let start_no = int (nat_of_digits start_digits 0);
              end_no = int (nat_of_digits end_digits 0)
          in if start_no \<le> end_no
             then Inr (Some \<lparr>start = start_no, end_no = end_no, compression = suffix_name\<rparr>)
             else Inl AssertionError)"

definition get_block_chunk_file_path_meta :: "string \<Rightarrow> error + BlockChunkFilenameMeta option" where
  "get_block_chunk_file_path_meta file_path = get_block_chunk_filename_meta (basename file_path)"

subsection \<open>Writing\<close>

text \<open>
  Modelled from the spec: the decorator \<^verbatim>\<open>ensure_locked\<close> of
  \<^verbatim>\<open>core/utils/file_lock.py\<close>, which is not among the sources. The spec: it asserts that
  the lock is already held by this process and fails with the given exception
  otherwise.
\<close>

definition ensure_locked ::
  "error \<Rightarrow> world \<Rightarrow> (world \<Rightarrow> (error + 'a) \<times> world) \<Rightarrow> (error + 'a) \<times> world" where
  "ensure_locked exception w body = (if is_locked w then body w else (Inl exception, w))"

definition EXPECTED_LOCK_EXCEPTION :: error where
  "EXPECTED_LOCK_EXCEPTION = BlockchainUnlockedError"

definition persist_blockchain_state ::
  "FileBlockchain \<Rightarrow> world \<Rightarrow> BlockchainStateMessage \<Rightarrow> (error + unit) \<times> world" where
  "persist_blockchain_state self w blockchain_state =
     ensure_locked EXPECTED_LOCK_EXCEPTION w (\<lambda>w.
       let filename = make_blockchain_state_filename (last_block_number blockchain_state) in
       case po_save (blockchain_states_storage self) (disk w) filename
              (state_to_messagepack self blockchain_state) True of
         (r, fs1) \<Rightarrow> (r, w\<lparr>disk := fs1\<rparr>))"

definition persist_block :: "FileBlockchain \<Rightarrow> world \<Rightarrow> Block \<Rightarrow> (error + unit) \<times> world" where
  "persist_block self w block =
     ensure_locked EXPECTED_LOCK_EXCEPTION w (\<lambda>w.
       let block_number = block_number (message block) in
       if block_chunk_size self = 0 then (Inl ZeroDivisionError, w)
       else
         let chunk_number = block_number div block_chunk_size self;
             offset = block_number mod block_chunk_size self;
             chunk_block_number_start = chunk_number * block_chunk_size self
         in if chunk_block_number_start \<noteq> block_number \<and>
               \<not> chunk_block_number_start < block_number
            then (Inl AssertionError, w)
            else
              let append_end =
                    (if chunk_block_number_start = block_number then block_number
                     else block_number - 1);
                  append_filename = make_block_chunk_filename chunk_block_number_start append_end;
                  filename = make_block_chunk_filename chunk_block_number_start block_number
              in case po_append (block_storage self) (disk w) append_filename
                        (block_to_messagepack self block) False of
                   (Inl e, fs1) \<Rightarrow> (Inl e, w\<lparr>disk := fs1\<rparr>)
                 | (Inr u, fs1) \<Rightarrow>
                     (case (if append_filename \<noteq> filename
                            then po_move (block_storage self) fs1 append_filename filename
                            else (Inr (), fs1)) of
                        (Inl e, fs2) \<Rightarrow> (Inl e, w\<lparr>disk := fs2\<rparr>)
                      | (Inr v, fs2) \<Rightarrow>
                          if offset = block_chunk_size self - 1
                          then (case po_finalize (block_storage self) fs2 filename of
                                  (r, fs3) \<Rightarrow> (r, w\<lparr>disk := fs3\<rparr>))
                          else (Inr (), w\<lparr>disk := fs2\<rparr>)))"

subsection \<open>Generators\<close>

text \<open>
  A Python generator that is run to its end: the items it yields, each with the state
  of the blockchain at the moment of the yield, the exception that ended it, if any, and
  the state at its end. A consumer that stops early (\<^verbatim>\<open>next\<close>) sees the first item and
  the state at its yield only.
\<close>

type_synonym 'a generator_run = "('a \<times> world) list \<times> error option \<times> world"

text \<open>\<^verbatim>\<open>yield from\<close> a second generator after a first one has been run.\<close>

definition then_yield_from ::
  "'a generator_run \<Rightarrow> (world \<Rightarrow> 'a generator_run) \<Rightarrow> 'a generator_run" where
  "then_yield_from first second =
     (case first of
        (ys1, Some e, w1) \<Rightarrow> (ys1, Some e, w1)
      | (ys1, None, w1) \<Rightarrow>
          (case second w1 of (ys2, e2, w2) \<Rightarrow> (ys1 @ ys2, e2, w2)))"

subsection \<open>Reading blockchain states\<close>

definition load_blockchain_states' ::
  "FileBlockchain \<Rightarrow> world \<Rightarrow> string \<Rightarrow> (error + BlockchainStateMessage) \<times> world" where
  "load_blockchain_states' self w file_path =
     (case lru_get (blockchain_states_cache w) file_path of
        (Some account_root_file, cache) \<Rightarrow>
          (Inr account_root_file, w\<lparr>blockchain_states_cache := cache\<rparr>)
      | (None, cache) \<Rightarrow>
          (case po_is_finalized (blockchain_states_storage self) (disk w) file_path of
             Inl e \<Rightarrow> (Inl e, w)
           | Inr False \<Rightarrow> (Inl AssertionError, w)
           | Inr True \<Rightarrow>
               (case po_load (blockchain_states_storage self) (disk w) file_path of
                  Inl e \<Rightarrow> (Inl e, w)
                | Inr binary_data \<Rightarrow>
                    (case state_from_messagepack self binary_data of
                       Inl e \<Rightarrow> (Inl e, w)
                     | Inr account_root_file \<Rightarrow>
                         (case lru_set (blockchain_states_cache w) file_path account_root_file of
                            Inl e \<Rightarrow> (Inl e, w)
                          | Inr cache1 \<Rightarrow>
                              (Inr account_root_file,
                               w\<lparr>blockchain_states_cache := cache1\<rparr>))))))"

fun load_each_blockchain_state ::
  "FileBlockchain \<Rightarrow> world \<Rightarrow> string list \<Rightarrow> BlockchainStateMessage generator_run" where
  "load_each_blockchain_state self w [] = ([], None, w)"
| "load_each_blockchain_state self w (file_path # rest) =
     (case load_blockchain_states' self w file_path of
        (Inl e, w1) \<Rightarrow> ([], Some e, w1)
      | (Inr account_root_file, w1) \<Rightarrow>
          (case load_each_blockchain_state self w1 rest of
             (ys, e, w2) \<Rightarrow> ((account_root_file, w1) # ys, e, w2)))"

definition yield_blockchain_states' ::
  "FileBlockchain \<Rightarrow> world \<Rightarrow> int \<Rightarrow> BlockchainStateMessage generator_run" where
  "yield_blockchain_states' self w direction =
     (if direction \<noteq> 1 \<and> direction \<noteq> - 1 then ([], Some AssertionError, w)
      else load_each_blockchain_state self w
             (po_list_directory (blockchain_states_storage self) (disk w) (Some direction)))"

definition yield_blockchain_states ::
  "FileBlockchain \<Rightarrow> world \<Rightarrow> BlockchainStateMessage generator_run" where
  "yield_blockchain_states self w = yield_blockchain_states' self w 1"

definition yield_blockchain_states_reversed ::
  "FileBlockchain \<Rightarrow> world \<Rightarrow> BlockchainStateMessage generator_run" where
  "yield_blockchain_states_reversed self w = yield_blockchain_states' self w (- 1)"

subsection \<open>Reading blocks\<close>

text \<open>
  \<^verbatim>\<open>_yield_blocks_from_cache\<close> walks the block numbers of its range, in the direction
  given, and stops at the first number the cache does not hold.
\<close>

fun cached_blocks :: "world \<Rightarrow> int list \<Rightarrow> (Block \<times> world) list \<times> world" where
  "cached_blocks w [] = ([], w)"
| "cached_blocks w (number # rest) =
     (case lru_get (blocks_cache w) number of
        (None, cache) \<Rightarrow> ([], w\<lparr>blocks_cache := cache\<rparr>)
      | (Some block, cache) \<Rightarrow>
          (case cached_blocks (w\<lparr>blocks_cache := cache\<rparr>) rest of
             (ys, w2) \<Rightarrow> ((block, w\<lparr>blocks_cache := cache\<rparr>) # ys, w2)))"

definition yield_blocks_from_cache' ::
  "world \<Rightarrow> int \<Rightarrow> int \<Rightarrow> int \<Rightarrow> Block generator_run" where
  "yield_blocks_from_cache' w start_block_no end_block_no direction =
     (if direction \<noteq> 1 \<and> direction \<noteq> - 1 then ([], Some AssertionError, w)
      else
        let iter = [start_block_no..end_block_no];
            iter1 = (if direction = - 1 then rev iter else iter)
        in case cached_blocks w iter1 of (ys, w1) \<Rightarrow> (ys, None, w1))"

text \<open>
  The loop of \<^verbatim>\<open>_yield_blocks_from_file\<close> over the blocks of a file: a block before the
  start (after it, when the direction is \<open>-1\<close>) is passed over, every other block is put
  into the cache and yielded.
\<close>

fun file_blocks :: "world \<Rightarrow> int \<Rightarrow> int option \<Rightarrow> Block list \<Rightarrow> Block generator_run" where
  "file_blocks w direction start_no [] = ([], None, w)"
| "file_blocks w direction start_no (block # rest) =
     (let number = block_number (message block) in
      if (case start_no of
            None \<Rightarrow> False
          | Some s \<Rightarrow> (direction = 1 \<and> number < s) \<or> (direction = - 1 \<and> number > s))
      then file_blocks w direction start_no rest
      else
        (case lru_set (blocks_cache w) number block of
           Inl e \<Rightarrow> ([], Some e, w)
         | Inr cache \<Rightarrow>
             (case file_blocks (w\<lparr>blocks_cache := cache\<rparr>) direction start_no rest of
                (ys, e, w2) \<Rightarrow> ((block, w\<lparr>blocks_cache := cache\<rparr>) # ys, e, w2))))"

definition yield_blocks_from_file' ::
  "FileBlockchain \<Rightarrow> world \<Rightarrow> string \<Rightarrow> int \<Rightarrow> int option \<Rightarrow> Block generator_run" where
  "yield_blocks_from_file' self w file_path direction start_no =
     (if direction \<noteq> 1 \<and> direction \<noteq> - 1 then ([], Some AssertionError, w)
      else
        (case po_load (block_storage self) (disk w) file_path of
           Inl e \<Rightarrow> ([], Some e, w)
         | Inr binary_data \<Rightarrow>
             let unpacker = unpack_blocks self binary_data;
                 unpacker1 = (if direction = - 1 then rev unpacker else unpacker)
             in file_blocks w direction start_no unpacker1))"

text \<open>
  The first loop of \<^verbatim>\<open>_yield_blocks_from_file_cached\<close>, over what the cache generator
  yields: it asserts that the block has the number it expects and moves the expected
  number on; the result carries the expected number at the end of the loop.
\<close>

fun expect_cached ::
  "int \<Rightarrow> int \<Rightarrow> (Block \<times> world) list \<Rightarrow> world \<Rightarrow>
   (Block \<times> world) list \<times> error option \<times> int \<times> world" where
  "expect_cached direction next_block_number [] w_end = ([], None, next_block_number, w_end)"
| "expect_cached direction next_block_number ((block, w_block) # rest) w_end =
     (if next_block_number \<noteq> block_number (message block)
      then ([], Some AssertionError, next_block_number, w_block)
      else
        (case expect_cached direction (next_block_number + direction) rest w_end of
           (ys, e, n, w2) \<Rightarrow> ((block, w_block) # ys, e, n, w2)))"

definition yield_blocks_from_file_cached' ::
  "FileBlockchain \<Rightarrow> world \<Rightarrow> string \<Rightarrow> int \<Rightarrow> int option \<Rightarrow> Block generator_run" where
  "yield_blocks_from_file_cached' self w file_path direction start_no =
     (if direction \<noteq> 1 \<and> direction \<noteq> - 1 then ([], Some AssertionError, w)
      else
        (case get_block_chunk_file_path_meta file_path of
           Inl e \<Rightarrow> ([], Some e, w)
         | Inr None \<Rightarrow> ([], None, w)
         | Inr (Some meta) \<Rightarrow>
             let file_start = start meta;
                 file_end = end_no meta;
                 cache_start =
                   (if direction = 1
                    then (case start_no of None \<Rightarrow> file_start | Some s \<Rightarrow> s)
                    else file_start);
                 cache_end =
                   (if direction = 1 then file_end
                    else (case start_no of None \<Rightarrow> file_end | Some s \<Rightarrow> s));
                 next_block_number = (if direction = 1 then cache_start else cache_end)
             in case yield_blocks_from_cache' w cache_start cache_end direction of
                  (cached, Some e, w1) \<Rightarrow> ([], Some e, w1)
                | (cached, None, w1) \<Rightarrow>
                    (case expect_cached direction next_block_number cached w1 of
                       (ys, e, next_block_number1, w2) \<Rightarrow>
                         then_yield_from (ys, e, w2)
                           (\<lambda>w3. if file_start \<le> next_block_number1 \<and>
                                     next_block_number1 \<le> file_end
                                  then yield_blocks_from_file' self w3 file_path direction
                                         (Some next_block_number1)
                                  else ([], None, w3)))))"

definition list_block_directory' :: "FileBlockchain \<Rightarrow> world \<Rightarrow> int \<Rightarrow> string list" where
  "list_block_directory' self w direction =
     po_list_directory (block_storage self) (disk w) (Some direction)"

fun yield_blocks_of_files ::
  "FileBlockchain \<Rightarrow> world \<Rightarrow> int \<Rightarrow> string list \<Rightarrow> Block generator_run" where
  "yield_blocks_of_files self w direction [] = ([], None, w)"
| "yield_blocks_of_files self w direction (file_path # rest) =
     then_yield_from (yield_blocks_from_file_cached' self w file_path direction None)
       (\<lambda>w1. yield_blocks_of_files self w1 direction rest)"

definition yield_blocks' :: "FileBlockchain \<Rightarrow> world \<Rightarrow> int \<Rightarrow> Block generator_run" where
  "yield_blocks' self w direction =
     (if direction \<noteq> 1 \<and> direction \<noteq> - 1 then ([], Some AssertionError, w)
      else yield_blocks_of_files self w direction (list_block_directory' self w direction))"

definition yield_blocks :: "FileBlockchain \<Rightarrow> world \<Rightarrow> Block generator_run" where
  "yield_blocks self w = yield_blocks' self w 1"

definition yield_blocks_reversed :: "FileBlockchain \<Rightarrow> world \<Rightarrow> Block generator_run" where
  "yield_blocks_reversed self w = yield_blocks' self w (- 1)"

fun yield_blocks_from_files ::
  "FileBlockchain \<Rightarrow> world \<Rightarrow> int \<Rightarrow> string list \<Rightarrow> Block generator_run" where
  "yield_blocks_from_files self w number [] = ([], None, w)"
| "yield_blocks_from_files self w number (file_path # rest) =
     (case get_block_chunk_file_path_meta file_path of
        Inl e \<Rightarrow> ([], Some e, w)
      | Inr None \<Rightarrow> yield_blocks_from_files self w number rest
      | Inr (Some meta) \<Rightarrow>
          if end_no meta < number then yield_blocks_from_files self w number rest
          else
            then_yield_from
              (yield_blocks_from_file_cached' self w file_path 1 (Some (max (start meta) number)))
              (\<lambda>w1. yield_blocks_from_files self w1 number rest))"

definition yield_blocks_from :: "FileBlockchain \<Rightarrow> world \<Rightarrow> int \<Rightarrow> Block generator_run" where
  "yield_blocks_from self w number =
     yield_blocks_from_files self w number (list_block_directory' self w 1)"

text \<open>
  \<^verbatim>\<open>get_block_by_number\<close>: the assertion on the truth of the cache, the look-up in the
  cache, and \<^verbatim>\<open>next\<close> on the generator, which returns at its first yield and turns the
  end of the generator into \<^verbatim>\<open>None\<close>.
\<close>

definition get_block_by_number ::
  "FileBlockchain \<Rightarrow> world \<Rightarrow> int \<Rightarrow> (error + Block option) \<times> world" where
  "get_block_by_number self w number =
     (if \<not> lru_truth (blocks_cache w) then (Inl AssertionError, w)
      else
        (case lru_get (blocks_cache w) number of
           (Some block, cache) \<Rightarrow> (Inr (Some block), w\<lparr>blocks_cache := cache\<rparr>)
         | (None, cache) \<Rightarrow>
             (case yield_blocks_from self (w\<lparr>blocks_cache := cache\<rparr>) number of
                ((block, w_block) # ys, e, w_end) \<Rightarrow> (Inr (Some block), w_block)
              | ([], Some e, w_end) \<Rightarrow> (Inl e, w_end)
              | ([], None, w_end) \<Rightarrow> (Inr None, w_end))))"

subsection \<open>Where a blockchain state comes from\<close>

text \<open>
  A blockchain state comes from a finalized file under a path when the store reports
  the path as finalized and the state is what the bytes loaded from the path decode to;
  and the cache of blockchain states is sound when each of its entries comes from a
  finalized file under its key.
\<close>

definition from_finalized_file ::
  "FileBlockchain \<Rightarrow> filesystem \<Rightarrow> string \<Rightarrow> BlockchainStateMessage \<Rightarrow> bool" where
  "from_finalized_file self fs file_path s =
     (po_is_finalized (blockchain_states_storage self) fs file_path = Inr True \<and>
      (case po_load (blockchain_states_storage self) fs file_path of
         Inl e \<Rightarrow> False
       | Inr binary_data \<Rightarrow> state_from_messagepack self binary_data = Inr s))"

definition cache_from_finalized_files :: "FileBlockchain \<Rightarrow> world \<Rightarrow> bool" where
  "cache_from_finalized_files self w =
     list_all (\<lambda>entry. from_finalized_file self (disk w) (fst entry) (snd entry))
       (entries (blockchain_states_cache w))"

subsection \<open>Agreement of the chunk files and the cache with a chain of blocks\<close>

text \<open>
  A chain gives the block of every number. A chunk file agrees with a chain when its
  name parses to a range and the file loads and unpacks to the blocks of that range, in
  order (a file whose name is not the name of a chunk file is skipped by every reader).
  The store agrees with the chain when every listed file does, every entry of the
  cache of blocks is the block of the chain under its key, and the cache can hold a
  block.
\<close>

definition chunk_blocks :: "(int \<Rightarrow> Block) \<Rightarrow> string \<Rightarrow> Block list" where
  "chunk_blocks chain file_path =
     (case get_block_chunk_file_path_meta file_path of
        Inr (Some meta) \<Rightarrow> map chain [start meta..end_no meta]
      | _ \<Rightarrow> [])"

definition chunk_file_consistent ::
  "FileBlockchain \<Rightarrow> filesystem \<Rightarrow> (int \<Rightarrow> Block) \<Rightarrow> string \<Rightarrow> bool" where
  "chunk_file_consistent self fs chain file_path =
     (case get_block_chunk_file_path_meta file_path of
        Inl e \<Rightarrow> False
      | Inr None \<Rightarrow> True
      | Inr (Some meta) \<Rightarrow>
          (case po_load (block_storage self) fs file_path of
             Inl e \<Rightarrow> False
           | Inr binary_data \<Rightarrow>
               unpack_blocks self binary_data = map chain [start meta..end_no meta]))"

definition cache_consistent :: "(int, Block) LRUCache \<Rightarrow> (int \<Rightarrow> Block) \<Rightarrow> bool" where
  "cache_consistent cache chain =
     (1 \<le> maxsize cache \<and> list_all (\<lambda>entry. snd entry = chain (fst entry)) (entries cache))"

definition numbered :: "(int \<Rightarrow> Block) \<Rightarrow> bool" where
  "numbered chain = (\<forall>k. block_number (message (chain k)) = k)"

definition store_consistent :: "FileBlockchain \<Rightarrow> world \<Rightarrow> (int \<Rightarrow> Block) \<Rightarrow> bool" where
  "store_consistent self w chain =
     (numbered chain \<and> cache_consistent (blocks_cache w) chain \<and>
      list_all (chunk_file_consistent self (disk w) chain)
        (po_list_directory (block_storage self) (disk w) (Some 1)))"

text \<open>The test of \<^verbatim>\<open>_yield_blocks_from_file\<close> that passes a block number over.\<close>

definition skipped :: "int \<Rightarrow> int option \<Rightarrow> int \<Rightarrow> bool" where
  "skipped d st k = (case st of None \<Rightarrow> False | Some s \<Rightarrow> (d = 1 \<and> k < s) \<or> (d = - 1 \<and> k > s))"


subsection \<open>Adding blocks\<close>

text \<open>
  Modelled from the spec: the decorator \<^verbatim>\<open>lock_method\<close> of \<^verbatim>\<open>core/utils/file_lock.py\<close>,
  which is not among the sources. The spec: it acquires the lock with zero timeout,
  fails with the given exception on contention, and releases the lock on exit. Whether
  another process holds the lock at the moment of the call is an argument of the call.
\<close>

definition LOCKED_EXCEPTION :: error where
  "LOCKED_EXCEPTION = BlockchainLockedError"

definition lock_method ::
  "error \<Rightarrow> bool \<Rightarrow> world \<Rightarrow> (world \<Rightarrow> (error + 'a) \<times> world) \<Rightarrow> (error + 'a) \<times> world" where
  "lock_method exception contended w body =
     (if contended then (Inl exception, w)
      else (case body (w\<lparr>is_locked := True\<rparr>) of
              (r, w1) \<Rightarrow> (r, w1\<lparr>is_locked := is_locked w\<rparr>)))"

text \<open>
  Modelled from the spec: \<^verbatim>\<open>get_last_block_number\<close>, which is not among the sources.
  The spec: it parses the end of the highest-numbered chunk, and is \<open>-1\<close> if there is
  none; a file name that does not parse is skipped.
\<close>

fun last_block_number_of :: "string list \<Rightarrow> error + int" where
  "last_block_number_of [] = Inr (- 1)"
| "last_block_number_of (file_path # rest) =
     (case get_block_chunk_file_path_meta file_path of
        Inl e \<Rightarrow> Inl e
      | Inr None \<Rightarrow> last_block_number_of rest
      | Inr (Some meta) \<Rightarrow>
          (case last_block_number_of rest of
             Inl e \<Rightarrow> Inl e
           | Inr n \<Rightarrow> Inr (max (end_no meta) n)))"

definition get_last_block_number :: "FileBlockchain \<Rightarrow> world \<Rightarrow> error + int" where
  "get_last_block_number self w = last_block_number_of (list_block_directory' self w 1)"

text \<open>
  Modelled from the spec: \<^verbatim>\<open>add_block\<close> of the base class \<^verbatim>\<open>BlockchainBase\<close>, which is
  not among the sources, called with the default \<^verbatim>\<open>validate=True\<close>. The spec: block
  numbers are dense starting at 0, so a block whose number is not the last block number
  plus one is refused with \<^verbatim>\<open>ValidationError\<close>; the block is appended to the current
  chunk, which is \<^verbatim>\<open>persist_block\<close>, and on success it is put into the cache of blocks
  under its number.
\<close>

definition BlockchainBase_add_block ::
  "FileBlockchain \<Rightarrow> world \<Rightarrow> Block \<Rightarrow> (error + unit) \<times> world" where
  "BlockchainBase_add_block self w block =
     (case get_last_block_number self w of
        Inl e \<Rightarrow> (Inl e, w)
      | Inr last_no \<Rightarrow>
          if block_number (message block) \<noteq> last_no + 1 then (Inl ValidationError, w)
          else
            (case persist_block self w block of
               (Inl e, w1) \<Rightarrow> (Inl e, w1)
             | (Inr u, w1) \<Rightarrow>
                 (case lru_set (blocks_cache w1) (block_number (message block)) block of
                    Inl e \<Rightarrow> (Inl e, w1)
                  | Inr cache \<Rightarrow> (Inr (), w1\<lparr>blocks_cache := cache\<rparr>))))"

text \<open>\<^verbatim>\<open>FileBlockchain.add_block\<close>: the method of the base class under the file lock.\<close>

definition add_block ::
  "FileBlockchain \<Rightarrow> world \<Rightarrow> Block \<Rightarrow> bool \<Rightarrow> (error + unit) \<times> world" where
  "add_block self w block contended =
     lock_method LOCKED_EXCEPTION contended w (\<lambda>w. BlockchainBase_add_block self w block)"

text \<open>
  A sequence of calls of \<^verbatim>\<open>add_block\<close>, each with its block and with whether another
  process holds the lock: what every call returned or raised, and the state after the
  last call.
\<close>

fun add_blocks ::
  "FileBlockchain \<Rightarrow> world \<Rightarrow> (Block \<times> bool) list \<Rightarrow> (error + unit) list \<times> world" where
  "add_blocks self w [] = ([], w)"
| "add_blocks self w ((block, contended) # calls) =
     (case add_block self w block contended of
        (r, w1) \<Rightarrow>
          (case add_blocks self w1 calls of
             (rs, w2) \<Rightarrow> (r # rs, w2)))"

subsection \<open>The blocks of the store and the caches that hold them\<close>

text \<open>
  The blocks that the chunk files of the store unpack to, and the caches of blocks
  whose entries are blocks of the store under their numbers: what the readers, which
  put a block they have read from a file under its number, and \<^verbatim>\<open>add_block\<close> can leave
  in a cache that can hold a block.
\<close>

definition stored_blocks :: "FileBlockchain \<Rightarrow> filesystem \<Rightarrow> Block list" where
  "stored_blocks self fs =
     concat (map (\<lambda>file_path.
                    case po_load (block_storage self) fs file_path of
                      Inl e \<Rightarrow> []
                    | Inr binary_data \<Rightarrow> unpack_blocks self binary_data)
               (po_list_directory (block_storage self) fs (Some 1)))"

definition cache_of_store ::
  "FileBlockchain \<Rightarrow> filesystem \<Rightarrow> (int, Block) LRUCache \<Rightarrow> bool" where
  "cache_of_store self fs cache =
     (1 \<le> maxsize cache \<and>
      list_all (\<lambda>entry. snd entry \<in> set (stored_blocks self fs) \<and>
                         block_number (message (snd entry)) = fst entry)
        (entries cache))"

subsection \<open>What the store of blocks relies on\<close>

text \<open>
  The directory of the store of blocks as the prefix of the paths of its files, and the
  conditions on the parts of a blockchain that are not among the sources. The chunk size
  is positive. The rewrite of the path optimized store sends the name of a chunk file to
  a relative path that ends with the name and that the store resolves below its
  directory, and the inverse rewrite gives the name back. Every compressor of the store
  is undone by its decompressor. The unpacker gives back, in order, the blocks whose
  packed bytes are concatenated, for the blocks that are handed to \<^verbatim>\<open>add_block\<close>.
\<close>

definition block_directory :: "FileBlockchain \<Rightarrow> string" where
  "block_directory self =
     concat (map ((#) CHR ''/'') (base_path (storage (block_storage self)))) @ ''/''"

definition block_store_sound :: "FileBlockchain \<Rightarrow> Block list \<Rightarrow> bool" where
  "block_store_sound self blocks =
     (0 < block_chunk_size self \<and>
      (\<forall>a e. 0 \<le> a \<and> a \<le> e \<longrightarrow>
         (let name = make_block_chunk_filename a e;
              path = make_optimized_file_path (block_storage self) name
          in get_absolute_path' (storage (block_storage self)) path
               = Inr (block_directory self @ path) \<and>
             logical_file_path (block_storage self) path = name \<and>
             suffix name path)) \<and>
      (\<forall>c\<in>set (compressors (storage (block_storage self))). \<forall>binary_data.
         decompressed_with (library (storage (block_storage self))) c
           (compressed_with (library (storage (block_storage self))) c binary_data)
           = Inr binary_data) \<and>
      (\<forall>bs. set bs \<subseteq> set blocks \<longrightarrow>
         unpack_blocks self (concat (map (block_to_messagepack self) bs)) = bs))"

subsection \<open>The chunk files that hold a list of blocks\<close>

text \<open>
  The blocks \<open>bs\<close>, numbered from 0, are held by the store when the following is true.
  The chunks are the ranges that start at a multiple of the chunk size below the number
  of blocks and end before the next multiple or at the last block. \<^verbatim>\<open>load\<close> gives, for
  the path of every chunk, the packed bytes of the blocks of the chunk, and a chunk
  that is not complete is a raw file without compressed sibling. Every file below the
  directory of the store is the file of a chunk or a compressed sibling of it.
\<close>

definition chunk_path :: "FileBlockchain \<Rightarrow> int \<Rightarrow> int \<Rightarrow> string" where
  "chunk_path self a e =
     block_directory self @
     make_optimized_file_path (block_storage self) (make_block_chunk_filename a e)"

definition chunk_data :: "FileBlockchain \<Rightarrow> Block list \<Rightarrow> int \<Rightarrow> int \<Rightarrow> bytes" where
  "chunk_data self bs a e =
     concat (map (block_to_messagepack self) (map (\<lambda>i. bs ! nat i) [a..e]))"

definition chunk_range :: "FileBlockchain \<Rightarrow> Block list \<Rightarrow> int \<Rightarrow> int \<Rightarrow> bool" where
  "chunk_range self bs a e =
     (0 \<le> a \<and> a mod block_chunk_size self = 0 \<and> a < int (length bs) \<and>
      e = min (a + block_chunk_size self - 1) (int (length bs) - 1))"

definition siblings :: "string \<Rightarrow> string list" where
  "siblings path = map (\<lambda>c. path @ ''.'' @ c) [''gz'', ''bz2'', ''xz'']"

definition chunk_kept :: "FileBlockchain \<Rightarrow> filesystem \<Rightarrow> Block list \<Rightarrow> int \<Rightarrow> int \<Rightarrow> bool" where
  "chunk_kept self fs bs a e =
     (load_from fs (chunk_path self a e)
        (DECOMPRESSION_FUNCTIONS (library (storage (block_storage self))))
        = Inr (chunk_data self bs a e) \<and>
      (e \<noteq> a + block_chunk_size self - 1 \<longrightarrow>
         map_option content (map_of (files fs) (chunk_path self a e))
           = Some (chunk_data self bs a e) \<and>
         (\<forall>q\<in>set (siblings (chunk_path self a e)). map_of (files fs) q = None)))"

definition blocks_stored :: "FileBlockchain \<Rightarrow> filesystem \<Rightarrow> Block list \<Rightarrow> bool" where
  "blocks_stored self fs bs =
     ((\<forall>i<length bs. block_number (message (bs ! i)) = int i) \<and>
      (\<forall>a e. chunk_range self bs a e \<longrightarrow> chunk_kept self fs bs a e) \<and>
      (\<forall>q. prefix (block_directory self) q \<longrightarrow> map_of (files fs) q \<noteq> None \<longrightarrow>
         (\<exists>a e. chunk_range self bs a e \<and>
                 q \<in> set (chunk_path self a e # siblings (chunk_path self a e)))))"

text \<open>A cache whose entries are blocks of the list \<open>bs\<close> under their positions.\<close>

definition cache_of_blocks :: "(int, Block) LRUCache \<Rightarrow> Block list \<Rightarrow> bool" where
  "cache_of_blocks cache bs =
     list_all (\<lambda>entry. 0 \<le> fst entry \<and> fst entry < int (length bs) \<and>
                        snd entry = bs ! nat (fst entry))
       (entries cache)"

text \<open>
  The chain of a list of blocks: the block of the list under every number it has, and a
  block that carries nothing but its number elsewhere.
\<close>

definition chain_of :: "Block list \<Rightarrow> int \<Rightarrow> Block" where
  "chain_of bs k =
     (if 0 \<le> k \<and> k < int (length bs) then bs ! nat k
      else \<lparr>message = \<lparr>block_number = k, block_identifier = [], timestamp = [],
                        signed_change_request = [], updated_account_states = []\<rparr>,
            block_hash = []\<rparr>)"

section \<open>A small blockchain for concrete runs\<close>

text \<open>
  Blocks and blockchain states that carry a number and nothing else, codecs that write
  the number as one byte, and stores under \<open>/chain\<close> on the library of toy codecs, with a
  fan-out of one directory named after the first character of the file name.
\<close>

definition sample_block :: "int \<Rightarrow> Block" where
  "sample_block n =
     \<lparr>message = \<lparr>block_number = n, block_identifier = [], timestamp = [],
                  signed_change_request = [], updated_account_states = []\<rparr>,
      block_hash = []\<rparr>"

definition sample_state :: "int option \<Rightarrow> BlockchainStateMessage" where
  "sample_state n =
     \<lparr>account_states = [], last_block_number = n, last_block_identifier = None,
      last_block_timestamp = None, next_block_identifier = None\<rparr>"

definition sample_chain_storage :: "string \<Rightarrow> PathOptimizedFileSystemStorage" where
  "sample_chain_storage subdir =
     \<lparr>storage = \<lparr>base_path = [''chain'', subdir], compressors = [''gz''],
                  library = sample_library\<rparr>,
      make_optimized_file_path = (\<lambda>path. take 1 path @ ''/'' @ path),
      logical_file_path = drop 2\<rparr>"

definition sample_blockchain :: "int \<Rightarrow> FileBlockchain" where
  "sample_blockchain chunk_size =
     \<lparr>block_storage = sample_chain_storage ''blocks'',
      blockchain_states_storage = sample_chain_storage ''blockchain-states'',
      block_chunk_size = chunk_size,
      block_to_messagepack = (\<lambda>block. [word_of_int (block_number (message block))]),
      unpack_blocks = map (\<lambda>byte. sample_block (uint byte)),
      state_to_messagepack =
        (\<lambda>s. case last_block_number s of None \<Rightarrow> [0] | Some n \<Rightarrow> [1, word_of_int n]),
      state_from_messagepack =
        (\<lambda>binary_data. case binary_data of
             [tag] \<Rightarrow> if tag = 0 then Inr (sample_state None) else Inl ValidationError
           | [tag, byte] \<Rightarrow>
               if tag = 1 then Inr (sample_state (Some (uint byte))) else Inl ValidationError
           | _ \<Rightarrow> Inl ValidationError)\<rparr>"

definition sample_world :: "(string \<times> file_entry) list \<Rightarrow> (int \<times> Block) list \<Rightarrow> world" where
  "sample_world stored cached =
     \<lparr>disk = \<lparr>files = stored, new_file_mode = 384\<rparr>,
      blocks_cache = \<lparr>maxsize = 200, entries = cached\<rparr>,
      blockchain_states_cache = \<lparr>maxsize = 128, entries = []\<rparr>,
      is_locked = True\<rparr>"

text \<open>A store that holds the blocks 0 to 3 in one chunk file, the chunk size being 100.\<close>

definition four_blocks :: "(string \<times> file_entry) list" where
  "four_blocks =
     [(''/chain/blocks/0/00000000000000000000-00000000000000000003-block-chunk.msgpack'',
       \<lparr>content = [0, 1, 2, 3], st_mode = 384\<rparr>)]"

text \<open>
  Calls of \<^verbatim>\<open>add_block\<close> that add the blocks 0, 1 and 2: between them a call that finds the
  lock held by another process, and after them a call with a block that is not the next
  one.
\<close>

definition three_blocks_added :: "(Block \<times> bool) list" where
  "three_blocks_added =
     [(sample_block 0, False), (sample_block 1, False), (sample_block 2, True),
      (sample_block 2, False), (sample_block 7, False)]"

section \<open>The dictionary codec of blockchain states\<close>

text \<open>
  The values that \<^verbatim>\<open>serialize_to_dict\<close> produces and \<^verbatim>\<open>deserialize_from_dict\<close> reads:
  \<^verbatim>\<open>None\<close>, integers, strings, lists and dictionaries with string keys, a dictionary being
  the list of its items in insertion order.
\<close>

datatype json =
    JNone
  | JInt int
  | JStr string
  | JList "json list"
  | JDict "(string \<times> json) list"

text \<open>
  The loop of \<^verbatim>\<open>SerializableMixin.serialize_to_dict\<close> over the fields of a dataclass, with
  the defaults \<^verbatim>\<open>skip_none_values=True\<close>, \<^verbatim>\<open>coerce_to_json_types=True\<close> and no excluded
  field: a field whose value is \<^verbatim>\<open>None\<close> is left out, every other field is entered with
  its serialized value. A field comes as its name and, unless its value is \<^verbatim>\<open>None\<close>, the
  serialized value.
\<close>

fun serialize_fields :: "(string \<times> json option) list \<Rightarrow> (string \<times> json) list" where
  "serialize_fields [] = []"
| "serialize_fields ((field_name, None) # rest) = serialize_fields rest"
| "serialize_fields ((field_name, Some v) # rest) = (field_name, v) # serialize_fields rest"

text \<open>
  Modelled from the spec: \<^verbatim>\<open>coerce_to_json_type\<close> and \<^verbatim>\<open>coerce_from_json_type\<close> of
  \<^verbatim>\<open>core/utils/misc.py\<close>, which are not among the sources, on the types of the fields at
  hand: an integer and a string are their own JSON values, a timestamp is kept as the
  string it is printed as, and a JSON value of another shape is not accepted.
\<close>

definition coerce_int :: "json \<Rightarrow> error + int" where
  "coerce_int v = (case v of JInt i \<Rightarrow> Inr i | _ \<Rightarrow> Inl ValidationError)"

definition coerce_str :: "json \<Rightarrow> error + string" where
  "coerce_str v = (case v of JStr s \<Rightarrow> Inr s | _ \<Rightarrow> Inl ValidationError)"

text \<open>\<^verbatim>\<open>deserialize_from_inner_list\<close> for a field of type \<^verbatim>\<open>list[str]\<close>.\<close>

fun deserialize_str_list :: "json list \<Rightarrow> error + string list" where
  "deserialize_str_list [] = Inr []"
| "deserialize_str_list (item # rest) =
     (case coerce_str item of
        Inl e \<Rightarrow> Inl e
      | Inr s \<Rightarrow> (case deserialize_str_list rest of Inl e \<Rightarrow> Inl e | Inr ss \<Rightarrow> Inr (s # ss)))"

text \<open>
  The first step of \<^verbatim>\<open>SerializableMixin.deserialize_from_dict\<close>: a field that is neither
  a key of the dictionary nor overridden nor optional is missing.
\<close>

definition missing_keys :: "string list \<Rightarrow> string list \<Rightarrow> string list \<Rightarrow> (string \<times> json) list \<Rightarrow> string list" where
  "missing_keys field_names optional_fields overridden dict =
     filter (\<lambda>key. key \<notin> set (map fst dict) \<and> key \<notin> set overridden \<and>
                    key \<notin> set optional_fields) field_names"

subsection \<open>Nodes and primary validator schedules\<close>

text \<open>
  Modelled from the spec: the dataclasses \<^verbatim>\<open>Node\<close>, \<^verbatim>\<open>PrimaryValidatorSchedule\<close> and
  \<^verbatim>\<open>AccountState\<close> are not among the sources; their fields are those of the data model
  of the spec, in its order, and they are serialized and deserialized by the methods of
  \<^verbatim>\<open>SerializableMixin\<close> that they inherit. The second loop of \<^verbatim>\<open>deserialize_from_dict\<close>
  goes through the items of the dictionary: an unknown key is refused, the value of a
  known key is deserialized by the type of the field and becomes the attribute of the
  object, and a field without an item keeps its default.
\<close>

definition Node_serialize_to_dict :: "Node \<Rightarrow> (string \<times> json) list" where
  "Node_serialize_to_dict n =
     serialize_fields
       [(''identifier'', map_option JStr (identifier_of n)),
        (''network_addresses'', Some (JList (map JStr (network_addresses n)))),
        (''fee_amount'', Some (JInt (fee_amount n))),
        (''fee_account'', map_option JStr (fee_account n))]"

fun Node_from_items :: "(string \<times> json) list \<Rightarrow> Node \<Rightarrow> error + Node" where
  "Node_from_items [] n = Inr n"
| "Node_from_items ((key, v) # rest) n =
     (if key = ''identifier''
      then (case coerce_str v of
              Inl e \<Rightarrow> Inl e
            | Inr s \<Rightarrow> Node_from_items rest (n\<lparr>identifier_of := Some s\<rparr>))
      else if key = ''network_addresses''
      then (case v of
              JList items \<Rightarrow>
                (case deserialize_str_list items of
                   Inl e \<Rightarrow> Inl e
                 | Inr ss \<Rightarrow> Node_from_items rest (n\<lparr>network_addresses := ss\<rparr>))
            | _ \<Rightarrow> Inl TypeError)
      else if key = ''fee_amount''
      then (case coerce_int v of
              Inl e \<Rightarrow> Inl e
            | Inr i \<Rightarrow> Node_from_items rest (n\<lparr>fee_amount := i\<rparr>))
      else if key = ''fee_account''
      then (case coerce_str v of
              Inl e \<Rightarrow> Inl e
            | Inr s \<Rightarrow> Node_from_items rest (n\<lparr>fee_account := Some s\<rparr>))
      else Inl ValidationError)"

definition Node_deserialize_from_dict :: "json \<Rightarrow> error + Node" where
  "Node_deserialize_from_dict v =
     (case v of
        JDict dict \<Rightarrow>
          if missing_keys [''identifier'', ''network_addresses'', ''fee_amount'', ''fee_account'']
               [''identifier'', ''fee_account''] [] dict \<noteq> []
          then Inl ValidationError
          else Node_from_items dict
                 \<lparr>identifier_of = None, network_addresses = [], fee_amount = 0,
                  fee_account = None\<rparr>
      | _ \<Rightarrow> Inl TypeError)"

definition PrimaryValidatorSchedule_serialize_to_dict ::
  "PrimaryValidatorSchedule \<Rightarrow> (string \<times> json) list" where
  "PrimaryValidatorSchedule_serialize_to_dict pvs =
     serialize_fields
       [(''begin_block_number'', Some (JInt (begin_block_number pvs))),
        (''end_block_number'', Some (JInt (end_block_number pvs)))]"

fun PrimaryValidatorSchedule_from_items ::
  "(string \<times> json) list \<Rightarrow> PrimaryValidatorSchedule \<Rightarrow> error + PrimaryValidatorSchedule" where
  "PrimaryValidatorSchedule_from_items [] pvs = Inr pvs"
| "PrimaryValidatorSchedule_from_items ((key, v) # rest) pvs =
     (if key = ''begin_block_number''
      then (case coerce_int v of
              Inl e \<Rightarrow> Inl e
            | Inr i \<Rightarrow> PrimaryValidatorSchedule_from_items rest (pvs\<lparr>begin_block_number := i\<rparr>))
      else if key = ''end_block_number''
      then (case coerce_int v of
              Inl e \<Rightarrow> Inl e
            | Inr i \<Rightarrow> PrimaryValidatorSchedule_from_items rest (pvs\<lparr>end_block_number := i\<rparr>))
      else Inl ValidationError)"

definition PrimaryValidatorSchedule_deserialize_from_dict ::
  "json \<Rightarrow> error + PrimaryValidatorSchedule" where
  "PrimaryValidatorSchedule_deserialize_from_dict v =
     (case v of
        JDict dict \<Rightarrow>
          if missing_keys [''begin_block_number'', ''end_block_number''] [] [] dict \<noteq> []
          then Inl ValidationError
          else PrimaryValidatorSchedule_from_items dict
                 \<lparr>begin_block_number = 0, end_block_number = 0\<rparr>
      | _ \<Rightarrow> Inl TypeError)"

subsection \<open>Account states\<close>

definition AccountState_serialize_to_dict :: "AccountState \<Rightarrow> (string \<times> json) list" where
  "AccountState_serialize_to_dict a =
     serialize_fields
       [(''balance'', map_option JInt (balance a)),
        (''balance_lock'', map_option JStr (balance_lock a)),
        (''node'', map_option (\<lambda>n. JDict (Node_serialize_to_dict n)) (node a)),
        (''primary_validator_schedule'',
           map_option (\<lambda>pvs. JDict (PrimaryValidatorSchedule_serialize_to_dict pvs))
             (primary_validator_schedule a))]"

fun AccountState_from_items :: "(string \<times> json) list \<Rightarrow> AccountState \<Rightarrow> error + AccountState" where
  "AccountState_from_items [] a = Inr a"
| "AccountState_from_items ((key, v) # rest) a =
     (if key = ''balance''
      then (case coerce_int v of
              Inl e \<Rightarrow> Inl e
            | Inr i \<Rightarrow> AccountState_from_items rest (a\<lparr>balance := Some i\<rparr>))
      else if key = ''balance_lock''
      then (case coerce_str v of
              Inl e \<Rightarrow> Inl e
            | Inr s \<Rightarrow> AccountState_from_items rest (a\<lparr>balance_lock := Some s\<rparr>))
      else if key = ''node''
      then (case Node_deserialize_from_dict v of
              Inl e \<Rightarrow> Inl e
            | Inr n \<Rightarrow> AccountState_from_items rest (a\<lparr>node := Some n\<rparr>))
      else if key = ''primary_validator_schedule''
      then (case PrimaryValidatorSchedule_deserialize_from_dict v of
              Inl e \<Rightarrow> Inl e
            | Inr pvs \<Rightarrow>
                AccountState_from_items rest (a\<lparr>primary_validator_schedule := Some pvs\<rparr>))
      else Inl ValidationError)"

definition AccountState_deserialize_from_dict :: "json \<Rightarrow> error + AccountState" where
  "AccountState_deserialize_from_dict v =
     (case v of
        JDict dict \<Rightarrow>
          AccountState_from_items dict
            \<lparr>balance = None, balance_lock = None, node = None,
             primary_validator_schedule = None\<rparr>
      | _ \<Rightarrow> Inl TypeError)"

subsection \<open>\<^verbatim>\<open>BlockchainStateMessage\<close>\<close>

text \<open>
  What \<^verbatim>\<open>BlockchainStateMessage.serialize_to_dict\<close> does to the serialized state of one
  account after the inherited method has run: a balance lock that equals the account
  number is deleted, and the identifier is removed from a node that is there.
\<close>

definition compact_account_state :: "string \<Rightarrow> json \<Rightarrow> json" where
  "compact_account_state account_number account_state =
     (case account_state of
        JDict d \<Rightarrow>
          let d1 = (if map_of d ''balance_lock'' = Some (JStr account_number)
                    then AList.delete ''balance_lock'' d else d);
              d2 = (case map_of d1 ''node'' of
                      Some (JDict n) \<Rightarrow>
                        if n \<noteq> [] then AList.update ''node'' (JDict (AList.delete ''identifier'' n)) d1
                        else d1
                    | _ \<Rightarrow> d1)
          in JDict d2
      | other \<Rightarrow> other)"

definition BlockchainStateMessage_serialize_to_dict ::
  "BlockchainStateMessage \<Rightarrow> (string \<times> json) list" where
  "BlockchainStateMessage_serialize_to_dict s =
     (let serialized =
            serialize_fields
              [(''account_states'',
                  Some (JDict (map (\<lambda>(account_number, account_state).
                                      (account_number,
                                       JDict (AccountState_serialize_to_dict account_state)))
                                 (account_states s)))),
               (''last_block_number'', map_option JInt (last_block_number s)),
               (''last_block_identifier'', map_option JStr (last_block_identifier s)),
               (''last_block_timestamp'', map_option JStr (last_block_timestamp s)),
               (''next_block_identifier'', map_option JStr (next_block_identifier s))]
      in case map_of serialized ''account_states'' of
           Some (JDict accounts) \<Rightarrow>
             AList.update ''account_states''
               (JDict (map (\<lambda>(account_number, account_state).
                              (account_number, compact_account_state account_number account_state))
                         accounts))
               serialized
         | _ \<Rightarrow> serialized)"

text \<open>
  The loop of \<^verbatim>\<open>BlockchainStateMessage.deserialize_from_dict\<close> over the serialized
  account states: each is deserialized, and a node without identifier gets the account
  number as its identifier.
\<close>

fun deserialize_account_states :: "(string \<times> json) list \<Rightarrow> error + (string \<times> AccountState) list" where
  "deserialize_account_states [] = Inr []"
| "deserialize_account_states ((account_number, account_state) # rest) =
     (case AccountState_deserialize_from_dict account_state of
        Inl e \<Rightarrow> Inl e
      | Inr account_state_object \<Rightarrow>
          let patched =
                (case node account_state_object of
                   Some n \<Rightarrow>
                     if identifier_of n = None
                     then account_state_object\<lparr>node := Some (n\<lparr>identifier_of := Some account_number\<rparr>)\<rparr>
                     else account_state_object
                 | None \<Rightarrow> account_state_object)
          in (case deserialize_account_states rest of
                Inl e \<Rightarrow> Inl e
              | Inr objects \<Rightarrow> Inr ((account_number, patched) # objects)))"

fun BlockchainStateMessage_from_items ::
  "(string \<times> json) list \<Rightarrow> BlockchainStateMessage \<Rightarrow> error + BlockchainStateMessage" where
  "BlockchainStateMessage_from_items [] s = Inr s"
| "BlockchainStateMessage_from_items ((key, v) # rest) s =
     (if key = ''account_states'' then BlockchainStateMessage_from_items rest s
      else if key = ''last_block_number''
      then (case coerce_int v of
              Inl e \<Rightarrow> Inl e
            | Inr i \<Rightarrow> BlockchainStateMessage_from_items rest (s\<lparr>last_block_number := Some i\<rparr>))
      else if key = ''last_block_identifier''
      then (case coerce_str v of
              Inl e \<Rightarrow> Inl e
            | Inr x \<Rightarrow> BlockchainStateMessage_from_items rest (s\<lparr>last_block_identifier := Some x\<rparr>))
      else if key = ''last_block_timestamp''
      then (case coerce_str v of
              Inl e \<Rightarrow> Inl e
            | Inr x \<Rightarrow> BlockchainStateMessage_from_items rest (s\<lparr>last_block_timestamp := Some x\<rparr>))
      else if key = ''next_block_identifier''
      then (case coerce_str v of
              Inl e \<Rightarrow> Inl e
            | Inr x \<Rightarrow> BlockchainStateMessage_from_items rest (s\<lparr>next_block_identifier := Some x\<rparr>))
      else Inl ValidationError)"

text \<open>
  \<^verbatim>\<open>BlockchainStateMessage.deserialize_from_dict\<close> with an empty override: the account
  states are taken out of the dictionary and become the override of the inherited
  method, which then reads the other items; without account states the inherited
  method finds the key missing, and account states that are not a dictionary have no
  \<^verbatim>\<open>items\<close> (\<^verbatim>\<open>AttributeError\<close>).
\<close>

definition BlockchainStateMessage_deserialize_from_dict ::
  "(string \<times> json) list \<Rightarrow> error + BlockchainStateMessage" where
  "BlockchainStateMessage_deserialize_from_dict dict =
     (case map_of dict ''account_states'' of
        None \<Rightarrow> Inl ValidationError
      | Some (JDict accounts) \<Rightarrow>
          (case deserialize_account_states accounts of
             Inl e \<Rightarrow> Inl e
           | Inr account_state_objects \<Rightarrow>
               BlockchainStateMessage_from_items (AList.delete ''account_states'' dict)
                 \<lparr>account_states = account_state_objects, last_block_number = None,
                  last_block_identifier = None, last_block_timestamp = None,
                  next_block_identifier = None\<rparr>)
      | Some other \<Rightarrow> Inl AttributeError)"

text \<open>
  A blockchain state is in compact form when no account has its own number as balance
  lock and every node has the number of its account as identifier; these are the two
  attributes that the serialization leaves out.
\<close>

definition compact_form :: "BlockchainStateMessage \<Rightarrow> bool" where
  "compact_form s =
     list_all
       (\<lambda>(account_number, account_state).
          balance_lock account_state \<noteq> Some account_number \<and>
          (case node account_state of
             None \<Rightarrow> True
           | Some n \<Rightarrow> identifier_of n = Some account_number))
       (account_states s)"

definition self_locked_state :: BlockchainStateMessage where
  "self_locked_state =
     \<lparr>account_states =
        [(''a1e9'', \<lparr>balance = Some 1000, balance_lock = Some ''a1e9'', node = None,
                     primary_validator_schedule = None\<rparr>)],
      last_block_number = None, last_block_identifier = None, last_block_timestamp = None,
      next_block_identifier = None\<rparr>"

definition sample_node_state :: BlockchainStateMessage where
  "sample_node_state =
     \<lparr>account_states =
        [(''a1e9'', \<lparr>balance = Some 901, balance_lock = Some ''lock-1'',
                     node = Some \<lparr>identifier_of = Some ''a1e9'',
                                  network_addresses = [''http://127.0.0.1:8555/''],
                                  fee_amount = 3, fee_account = None\<rparr>,
                     primary_validator_schedule =
                       Some \<lparr>begin_block_number = 0, end_block_number = 99\<rparr>\<rparr>),
         (''a5aa'', \<lparr>balance = Some 99, balance_lock = None, node = None,
                     primary_validator_schedule = None\<rparr>)],
      last_block_number = Some 0, last_block_identifier = Some ''fake-block-identifier-0'',
      last_block_timestamp = Some ''2021-01-01T00:00:00'',
      next_block_identifier = Some ''fake-message-hash''\<rparr>"

text \<open>
  What is left of a blockchain state after serialization: a balance lock that equals
  the account number is gone, and every node is identified by the number of the account
  it belongs to.
\<close>

definition canonical_account_state :: "string \<Rightarrow> AccountState \<Rightarrow> AccountState" where
  "canonical_account_state account_number a =
     a\<lparr>balance_lock := (if balance_lock a = Some account_number then None else balance_lock a),
       node := map_option (\<lambda>n. n\<lparr>identifier_of := Some account_number\<rparr>) (node a)\<rparr>"

definition canonical_state :: "BlockchainStateMessage \<Rightarrow> BlockchainStateMessage" where
  "canonical_state s =
     s\<lparr>account_states :=
         map (\<lambda>(account_number, a). (account_number, canonical_account_state account_number a))
           (account_states s)\<rparr>"

section \<open>Properties of the file names\<close>

lemma digit_char_less: "d < 10 \<Longrightarrow> of_char (digit_char d) = (48::nat) + d"
proof -
  assume "d < 10"
  then have "d = 0 \<or> d = 1 \<or> d = 2 \<or> d = 3 \<or> d = 4 \<or> d = 5 \<or> d = 6 \<or> d = 7 \<or> d = 8 \<or> d = 9"
    by arith
  then show ?thesis by (elim disjE) (simp_all add: digit_char_def)
qed

lemma nat_of_digits_append: "nat_of_digits (xs @ ys) acc = nat_of_digits ys (nat_of_digits xs acc)"
  by (induction xs arbitrary: acc) simp_all

lemma nat_of_digits_str_nat: "nat_of_digits (str_nat n) acc = acc * 10 ^ length (str_nat n) + n"
proof (induction n arbitrary: acc rule: str_nat.induct)
  case (1 n)
  show ?case
  proof (cases "n < 10")
    case True
    then show ?thesis by (simp add: str_nat.simps [of n] digit_char_less)
  next
    case False
    have "n mod 10 < 10" by simp
    with False 1 [of acc] show ?thesis
      by (simp add: str_nat.simps [of n] nat_of_digits_append digit_char_less algebra_simps)
  qed
qed

lemma nat_of_digits_zeros: "nat_of_digits (replicate k CHR ''0'') 0 = 0"
  by (induction k) simp_all

lemma nat_of_digits_padded: "nat_of_digits (replicate k CHR ''0'' @ str_nat n) 0 = n"
  by (simp add: nat_of_digits_append nat_of_digits_zeros nat_of_digits_str_nat)

lemma str_nat_not_Nil: "str_nat n \<noteq> []"
  by (subst str_nat.simps) simp

lemma hd_str_nat: "0 < n \<Longrightarrow> CHR ''0'' < hd (str_nat n)"
proof (induction n rule: str_nat.induct)
  case (1 n)
  show ?case
  proof (cases "n < 10")
    case True
    with 1(2) have "of_char (digit_char n) = (48::nat) + n" "0 < n"
      by (simp_all add: digit_char_less)
    then show ?thesis using True
      by (simp add: str_nat.simps [of n] less_char_def)
  next
    case False
    then have "0 < n div 10" by simp
    with 1(1) False have "CHR ''0'' < hd (str_nat (n div 10))" by simp
    with False show ?thesis
      by (simp add: str_nat.simps [of n] str_nat_not_Nil)
  qed
qed

lemma hd_str_nat_digit: "CHR ''!'' < hd (str_nat n)"
proof (cases "0 < n")
  case True
  from hd_str_nat [OF this] show ?thesis by (simp add: less_char_def)
next
  case False
  then show ?thesis by (simp add: str_nat.simps [of 0] digit_char_def)
qed

lemma less_at_first_difference:
  fixes x y :: char
  shows "x < y \<Longrightarrow> p @ x # r < p @ y # r'"
  by (induction p) simp_all


lemma hd_str_nat_ge: "(48::nat) \<le> of_char (hd (str_nat n))"
proof (induction n rule: str_nat.induct)
  case (1 n)
  show ?case
  proof (cases "n < 10")
    case True
    then show ?thesis by (simp add: str_nat.simps [of n] digit_char_less)
  next
    case False
    with 1 show ?thesis by (simp add: str_nat.simps [of n] str_nat_not_Nil)
  qed
qed

lemma zfill_str_nat:
  "zfill (str_nat n) w = replicate (w - length (str_nat n)) CHR ''0'' @ str_nat n"
proof -
  obtain c rest where s: "str_nat n = c # rest"
    using str_nat_not_Nil [of n] by (cases "str_nat n") auto
  from hd_str_nat_ge [of n] s have "c \<noteq> CHR ''+''" "c \<noteq> CHR ''-''" by auto
  with s show ?thesis by (simp add: zfill_def)
qed

lemma length_str_nat_one: "length (str_nat n) \<le> 1 \<Longrightarrow> n < 10"
  by (subst (asm) str_nat.simps) (simp add: str_nat_not_Nil split: if_splits)

lemma genesis_prefix_less:
  "replicate 9 CHR ''0'' @ ''!'' @ t < zfill (str_nat n) 10 @ t'"
proof -
  obtain c rest where s: "str_nat n = c # rest"
    using str_nat_not_Nil [of n] by (cases "str_nat n") auto
  show ?thesis
  proof (cases "rest = []")
    case True
    from hd_str_nat_digit [of n] s have "CHR ''!'' < c" by simp
    then have "replicate 9 CHR ''0'' @ CHR ''!'' # t < replicate 9 CHR ''0'' @ c # t'"
      by (rule less_at_first_difference)
    then show ?thesis unfolding zfill_str_nat using s True by simp
  next
    case False
    with s have "\<not> length (str_nat n) \<le> 1" by (cases rest) simp_all
    with length_str_nat_one [of n] have "0 < n"
      by (cases "n = 0") (simp_all add: str_nat.simps [of 0])
    from hd_str_nat [OF this] s have c: "CHR ''0'' < c" by simp
    define k where "k = 10 - length (str_nat n)"
    from False s have k: "k < 9" by (cases rest) (simp_all add: k_def)
    then have e: "(9::nat) = k + Suc (8 - k)" by simp
    have "replicate 9 CHR ''0'' = replicate k CHR ''0'' @ CHR ''0'' # replicate (8 - k) CHR ''0''"
      by (subst e) (simp add: replicate_add replicate_append_same)
    moreover have "replicate k CHR ''0'' @ CHR ''0'' # (replicate (8 - k) CHR ''0'' @ ''!'' @ t)
        < replicate k CHR ''0'' @ c # (rest @ t')"
      using c by (rule less_at_first_difference)
    ultimately show ?thesis unfolding zfill_str_nat using s by (simp add: k_def)
  qed
qed

text \<open>
  Claim C2, as the code has it. The name of the genesis blockchain state file (the file
  of the state whose \<^verbatim>\<open>last_block_number\<close> is \<^verbatim>\<open>None\<close>) is the sentinel \<open>!\<close> padded on
  the left by \<^verbatim>\<open>zfill\<close>, that is with the digit \<open>0\<close>, to ten characters, followed by
  \<open>-arf.msgpack\<close>. It is not \<open>!!!!!!!!!!-arf.msgpack\<close>.
\<close>

theorem genesis_filename_not_bang_padded:
  "make_blockchain_state_filename None \<noteq> ''!!!!!!!!!!-arf.msgpack''"
  by code_simp

text \<open>
  Claim C2, amended: the genesis file is named \<open>000000000!-arf.msgpack\<close>, and this name
  is strictly below the name of the state file of every block number \<open>n \<ge> 0\<close> in the
  lexicographic order of strings by character code.
\<close>

theorem genesis_filename_sorts_first:
  "0 \<le> n \<Longrightarrow>
     make_blockchain_state_filename None = ''000000000!-arf.msgpack'' \<and>
     make_blockchain_state_filename None < make_blockchain_state_filename (Some n)"
proof -
  assume n: "0 \<le> n"
  have g: "make_blockchain_state_filename None = ''000000000!-arf.msgpack''"
    by code_simp
  have r: "''000000000!-arf.msgpack'' = replicate 9 CHR ''0'' @ ''!'' @ ''-arf.msgpack''"
    by code_simp
  from n have "make_blockchain_state_filename (Some n) = zfill (str_nat (nat n)) 10 @ ''-arf.msgpack''"
    by (simp add: make_blockchain_state_filename_def str_int_def ORDER_OF_BLOCKCHAIN_STATE_FILE_def)
  with genesis_prefix_less [of "''-arf.msgpack''" "nat n" "''-arf.msgpack''"] g r
  show ?thesis by simp
qed

theorem genesis_filename_sorts_first_witness:
  "(0::int) \<le> 7 \<and> make_blockchain_state_filename None = ''000000000!-arf.msgpack'' \<and>
   make_blockchain_state_filename (Some 7) = ''0000000007-arf.msgpack'' \<and>
   ''000000000!-arf.msgpack'' < ''0000000007-arf.msgpack''"
proof -
  have e: "make_blockchain_state_filename (Some 7) = ''0000000007-arf.msgpack''" by code_simp
  from genesis_filename_sorts_first [of 7] e show ?thesis by simp
qed

section \<open>Properties of the node enumeration\<close>

lemma yield_nodes_tagged_snd: "map snd (yield_nodes_tagged K xs) = yield_nodes_from K xs"
  by (induction K xs rule: yield_nodes_tagged.induct) (simp_all split: option.splits)

lemma yield_nodes_tagged_fst: "fst ` set (yield_nodes_tagged K xs) \<inter> K = {}"
  by (induction K xs rule: yield_nodes_tagged.induct) (auto split: option.splits)

lemma yield_nodes_tagged_distinct: "distinct (map fst (yield_nodes_tagged K xs))"
proof (induction K xs rule: yield_nodes_tagged.induct)
  case (2 K a s rest)
  show ?case
  proof (cases "node s")
    case None
    with 2 show ?thesis by simp
  next
    case (Some n)
    show ?thesis
    proof (cases "a \<in> K")
      case True
      with 2 Some show ?thesis by simp
    next
      case False
      from yield_nodes_tagged_fst [of "insert a K" rest]
      have "a \<notin> fst ` set (yield_nodes_tagged (insert a K) rest)" by auto
      with 2 Some False show ?thesis by simp
    qed
  qed
qed simp

lemma yield_nodes_tagged_map_of:
  "map_of (yield_nodes_tagged K xs) a = (if a \<in> K then None else map_of (node_entries xs) a)"
proof (induction K xs rule: yield_nodes_tagged.induct)
  case (2 K b s rest)
  show ?case
  proof (cases "node s")
    case None
    with 2 show ?thesis by simp
  next
    case (Some n)
    with 2 show ?thesis by (cases "b \<in> K") auto
  qed
qed simp

lemma yield_nodes_tagged_subseq: "subseq (yield_nodes_tagged K xs) (node_entries xs)"
  by (induction K xs rule: yield_nodes_tagged.induct) (auto split: option.splits)

text \<open>
  Claim C10. For every block number argument, the nodes that \<^verbatim>\<open>yield_nodes\<close> yields are
  the second components of a list \<open>ps\<close> of pairs of account number and node in which no
  account number occurs twice (at most one node for an account), which is a subsequence
  of the node-carrying account states in the order of \<^verbatim>\<open>yield_account_states\<close>, and
  which gives every account the node of the first account state of that account that
  carries a node (\<open>map_of\<close> returns the first entry of a key); account states without a
  node contribute nothing.
\<close>

theorem yield_nodes_first_node_per_account:
  "\<exists>ps. yield_nodes yield_account_states from_block_number = map snd ps \<and>
        distinct (map fst ps) \<and>
        map_of ps = map_of (node_entries (yield_account_states from_block_number)) \<and>
        subseq ps (node_entries (yield_account_states from_block_number))"
proof -
  let ?ps = "yield_nodes_tagged {} (yield_account_states from_block_number)"
  have "yield_nodes yield_account_states from_block_number = map snd ?ps"
    by (simp add: yield_nodes_def yield_nodes_tagged_snd)
  moreover have "distinct (map fst ?ps)" by (rule yield_nodes_tagged_distinct)
  moreover have "map_of ?ps = map_of (node_entries (yield_account_states from_block_number))"
    by (rule ext) (simp add: yield_nodes_tagged_map_of)
  moreover have "subseq ?ps (node_entries (yield_account_states from_block_number))"
    by (rule yield_nodes_tagged_subseq)
  ultimately show ?thesis by blast
qed

section \<open>Properties of the compressing file store\<close>

subsection \<open>Writes to a finalized file\<close>

lemma persist_finalized:
  "is_finalized self fs p = Inr True \<Longrightarrow>
   persist' self fs p d m fl = (Inl FinalizedFileWriteError, fs)"
  by (auto simp: is_finalized_def persist'_def write_file'_def split: sum.splits)

lemma run_write_call_finalized:
  "is_finalized self fs p = Inr True \<Longrightarrow>
   run_write_call self fs p call = (Inl FinalizedFileWriteError, fs)"
  by (cases call) (simp_all add: save_def append_to_def persist_finalized)

text \<open>
  Claim C3. When \<^verbatim>\<open>is_finalized(p)\<close> returns true (a compressed sibling of the file
  exists, or the file exists and has no write permission bit), every call in any
  sequence of calls of \<^verbatim>\<open>save\<close> and \<^verbatim>\<open>append\<close> on \<open>p\<close>, with any data and any
  \<^verbatim>\<open>is_final\<close> flag, raises \<^verbatim>\<open>FinalizedFileWriteError\<close>, and the file system after the
  calls is the file system before them.
\<close>

theorem finalized_file_rejects_writes:
  "is_finalized self fs p = Inr True \<Longrightarrow>
   run_write_calls self fs p calls = (replicate (length calls) (Inl FinalizedFileWriteError), fs)"
  by (induction calls) (simp_all add: run_write_call_finalized)

theorem finalized_file_rejects_writes_witness:
  "is_finalized sample_storage sample_fs ''a.bin'' = Inr True \<and>
   run_write_calls sample_storage sample_fs ''a.bin'' [Save [9] False, Append [7] True] =
     ([Inl FinalizedFileWriteError, Inl FinalizedFileWriteError], sample_fs)"
proof -
  have h: "is_finalized sample_storage sample_fs ''a.bin'' = Inr True" by code_simp
  from finalized_file_rejects_writes [OF h, of "[Save [9] False, Append [7] True]"] h
  show ?thesis by simp
qed

subsection \<open>The choice of the compressed file\<close>

lemma sibling_neq: "fp @ ''.'' @ c \<noteq> fp"
  by simp

lemma known_compressor:
  "c \<in> fst ` set (COMPRESSION_FUNCTIONS lib) \<Longrightarrow>
   \<exists>f. map_of (COMPRESSION_FUNCTIONS lib) c = Some f \<and> compressed_with lib c b = f b"
  by (auto simp: COMPRESSION_FUNCTIONS_def compressed_with_def)

lemma compress_loop_result:
  assumes "set cs \<subseteq> fst ` set (COMPRESSION_FUNCTIONS lib)" and "b \<noteq> []"
  shows "\<exists>bf' bd'. compress_loop lib fp b cs (bf, bd) = Inr (bf', bd') \<and>
           (\<forall>c\<in>set cs. length bd' \<le> length (compressed_with lib c b)) \<and>
           ((bf', bd') = (bf, bd) \<and> (\<forall>c\<in>set cs. length bd \<le> length (compressed_with lib c b)) \<or>
            (\<exists>c\<in>set cs. bf' = fp @ ''.'' @ c \<and> bd' = compressed_with lib c b \<and>
                         length bd' < length bd))"
  using assms(1)
proof (induction cs arbitrary: bf bd)
  case Nil
  then show ?case by simp
next
  case (Cons c cs)
  from Cons.prems have "c \<in> fst ` set (COMPRESSION_FUNCTIONS lib)" by simp
  from known_compressor [OF this, of b] obtain f
    where f: "map_of (COMPRESSION_FUNCTIONS lib) c = Some f" "compressed_with lib c b = f b"
    by blast
  from Cons.prems have sub: "set cs \<subseteq> fst ` set (COMPRESSION_FUNCTIONS lib)" by simp
  show ?case
  proof (cases "length (f b) < length bd")
    case True
    from Cons.IH [OF sub, of "fp @ ''.'' @ c" "f b"] obtain bf' bd' where
      r: "compress_loop lib fp b cs (fp @ ''.'' @ c, f b) = Inr (bf', bd')"
         "\<forall>c'\<in>set cs. length bd' \<le> length (compressed_with lib c' b)"
         "(bf', bd') = (fp @ ''.'' @ c, f b) \<and>
            (\<forall>c'\<in>set cs. length (f b) \<le> length (compressed_with lib c' b)) \<or>
          (\<exists>c'\<in>set cs. bf' = fp @ ''.'' @ c' \<and> bd' = compressed_with lib c' b \<and>
                         length bd' < length (f b))"
      by blast
    from r(3) have le: "length bd' \<le> length (f b)" by auto
    have "compress_loop lib fp b (c # cs) (bf, bd) = Inr (bf', bd')"
      using f True r(1) assms(2) by simp
    moreover have "\<forall>c'\<in>set (c # cs). length bd' \<le> length (compressed_with lib c' b)"
      using r(2) le f(2) by simp
    moreover have "\<exists>c'\<in>set (c # cs). bf' = fp @ ''.'' @ c' \<and> bd' = compressed_with lib c' b \<and>
                         length bd' < length bd"
      using r(3) True f(2) by auto
    ultimately show ?thesis by blast
  next
    case False
    from Cons.IH [OF sub, of bf bd] obtain bf' bd' where
      r: "compress_loop lib fp b cs (bf, bd) = Inr (bf', bd')"
         "\<forall>c'\<in>set cs. length bd' \<le> length (compressed_with lib c' b)"
         "(bf', bd') = (bf, bd) \<and>
            (\<forall>c'\<in>set cs. length bd \<le> length (compressed_with lib c' b)) \<or>
          (\<exists>c'\<in>set cs. bf' = fp @ ''.'' @ c' \<and> bd' = compressed_with lib c' b \<and>
                         length bd' < length bd)"
      by blast
    from r(3) have le: "length bd' \<le> length bd" by auto
    have "compress_loop lib fp b (c # cs) (bf, bd) = Inr (bf', bd')"
      using f False r(1) assms(2) by simp
    moreover have "\<forall>c'\<in>set (c # cs). length bd' \<le> length (compressed_with lib c' b)"
      using r(2) le f(2) False by simp
    moreover have "(bf', bd') = (bf, bd) \<and>
            (\<forall>c'\<in>set (c # cs). length bd \<le> length (compressed_with lib c' b)) \<or>
          (\<exists>c'\<in>set (c # cs). bf' = fp @ ''.'' @ c' \<and> bd' = compressed_with lib c' b \<and>
                         length bd' < length bd)"
      using r(3) False f(2) by auto
    ultimately show ?thesis by blast
  qed
qed

lemma compress_loop_empty_data:
  "cs \<noteq> [] \<Longrightarrow> \<exists>e. compress_loop lib fp [] cs best = Inl e"
  by (cases cs; cases best) (auto split: option.splits)


lemma compress_loop_shape:
  "compress_loop lib fp b cs (bf, bd) = Inr (bf', bd') \<Longrightarrow>
   (bf', bd') = (bf, bd) \<or>
   (\<exists>c\<in>set cs. c \<in> fst ` set (COMPRESSION_FUNCTIONS lib) \<and> bf' = fp @ ''.'' @ c \<and>
                bd' = compressed_with lib c b)"
proof (induction cs arbitrary: bf bd)
  case Nil
  then show ?case by simp
next
  case (Cons c cs)
  from Cons.prems obtain f where f: "map_of (COMPRESSION_FUNCTIONS lib) c = Some f"
    by (auto split: option.splits)
  then have k: "c \<in> fst ` set (COMPRESSION_FUNCTIONS lib)"
    by (metis domI dom_map_of_conv_image_fst)
  from f have cw: "compressed_with lib c b = f b" by (simp add: compressed_with_def)
  show ?case
  proof (cases "length (f b) < length bd")
    case True
    with Cons.prems f have "compress_loop lib fp b cs (fp @ ''.'' @ c, f b) = Inr (bf', bd')"
      by (simp add: Let_def split: if_splits)
    from Cons.IH [OF this] k cw show ?thesis by auto
  next
    case False
    with Cons.prems f have "compress_loop lib fp b cs (bf, bd) = Inr (bf', bd')"
      by (simp add: Let_def split: if_splits)
    from Cons.IH [OF this] show ?thesis by auto
  qed
qed

lemma compress_cases:
  assumes "compress' self fs fp = (r, fs')"
    and "map_of (files fs) fp = Some f"
  shows "fs' = fs \<and> (r = Inr fp \<or> (\<exists>e. r = Inl e)) \<or>
         (\<exists>c\<in>set (compressors self). c \<in> fst ` set (COMPRESSION_FUNCTIONS (library self)) \<and>
            r = Inr (fp @ ''.'' @ c) \<and>
            fs' = compressed_state fs fp c (compressed_with (library self) c (content f)))"
proof (cases "compressors self = []")
  case True
  with assms show ?thesis by (simp add: compress'_def)
next
  case False
  show ?thesis
  proof (cases "compress_loop (library self) fp (content f) (compressors self) (fp, content f)")
    case (Inl e)
    with assms False show ?thesis by (auto simp: compress'_def)
  next
    case (Inr best)
    obtain bf bd where best: "best = (bf, bd)" by (cases best)
    from compress_loop_shape [OF Inr [unfolded best]]
    consider "(bf, bd) = (fp, content f)"
      | c where "c \<in> set (compressors self)" "c \<in> fst ` set (COMPRESSION_FUNCTIONS (library self))"
          "bf = fp @ ''.'' @ c" "bd = compressed_with (library self) c (content f)"
      by blast
    then show ?thesis
    proof cases
      case 1
      with assms False Inr best show ?thesis by (auto simp: compress'_def)
    next
      case 2
      show ?thesis
      proof (cases "is_finalized' (library self) fs bf")
        case True
        with assms False Inr best 2 show ?thesis
          by (auto simp: compress'_def write_file'_def)
      next
        case nf: False
        have ex: "os_path_exists (atomic_write_append fs bf WB bd) fp"
          using assms(2) 2(3)
          by (simp add: os_path_exists_def atomic_write_append_def update_conv')
        from assms False Inr best 2 nf ex
        have "r = Inr bf" "fs' = compressed_state fs fp c bd"
          by (auto simp: compress'_def write_file'_def os_remove_def compressed_state_def
                atomic_write_append_def)
        with 2 show ?thesis by blast
      qed
    qed
  qed
qed


lemma and_le_nat: "(m::nat) AND w \<le> m"
  by (metis AND_upper1 of_nat_0_le_iff of_nat_and_eq of_nat_le_iff)

lemma drop_bits_and:
  fixes m w :: nat
  shows "(m - (m AND w)) AND w = 0"
proof -
  have d: "NOT (int m) AND (int m AND int w) = 0"
    by (auto simp: bit_eq_iff bit_simps)
  from disjunctive_diff_eq_and_not [OF d]
  have "(int m - (int m AND int w)) AND int w = 0"
    by (auto simp: bit_eq_iff bit_simps)
  moreover have "int ((m - (m AND w)) AND w) = (int m - (int m AND int w)) AND int w"
    using and_le_nat [of m w] by (simp add: of_nat_and_eq of_nat_diff)
  ultimately show ?thesis by simp
qed

lemma drop_write_permissions_lookup:
  "map_of (files fs) fn = Some f \<Longrightarrow>
   drop_write_permissions fs fn = (r, fs') \<Longrightarrow>
   r = Inr () \<and> map_option content (map_of (files fs') fn) = Some (content f) \<and>
   has_write_permissions fs' fn = Inr False \<and>
   (\<forall>q. q \<noteq> fn \<longrightarrow> map_of (files fs') q = map_of (files fs) q)"
  by (auto simp: drop_write_permissions_def Let_def update_conv' has_write_permissions_def
        drop_bits_and)

lemma compressed_state_lookup:
  "map_of (files (compressed_state fs fp c d)) q =
     (if q = fp then None
      else if q = fp @ ''.'' @ c then Some \<lparr>content = d, st_mode = new_file_mode fs\<rparr>
      else map_of (files fs) q)"
  by (simp add: compressed_state_def delete_conv' update_conv')

lemma compress_selects_smallest:
  assumes raw: "map_of (files fs) fp = Some f"
    and known: "set (compressors self) \<subseteq> fst ` set (COMPRESSION_FUNCTIONS (library self))"
    and fresh: "\<forall>c\<in>set (compressors self). \<not> is_finalized' (library self) fs (fp @ ''.'' @ c)"
    and smaller: "\<exists>c\<in>set (compressors self).
                    length (compressed_with (library self) c (content f)) < length (content f)"
  shows "\<exists>c\<in>set (compressors self).
           (\<forall>c'\<in>set (compressors self).
              length (compressed_with (library self) c (content f))
                \<le> length (compressed_with (library self) c' (content f))) \<and>
           length (compressed_with (library self) c (content f)) < length (content f) \<and>
           compress' self fs fp =
             (Inr (fp @ ''.'' @ c),
              compressed_state fs fp c (compressed_with (library self) c (content f)))"
proof -
  let ?b = "content f" and ?cs = "compressors self" and ?lib = "library self"
  from smaller have ne: "?b \<noteq> []" "?cs \<noteq> []" by auto
  from compress_loop_result [OF known ne(1), of fp fp ?b] obtain bf' bd' where
    r: "compress_loop ?lib fp ?b ?cs (fp, ?b) = Inr (bf', bd')"
       "\<forall>c\<in>set ?cs. length bd' \<le> length (compressed_with ?lib c ?b)"
       "(bf', bd') = (fp, ?b) \<and> (\<forall>c\<in>set ?cs. length ?b \<le> length (compressed_with ?lib c ?b)) \<or>
        (\<exists>c\<in>set ?cs. bf' = fp @ ''.'' @ c \<and> bd' = compressed_with ?lib c ?b \<and>
                       length bd' < length ?b)"
    by blast
  from r(3) smaller obtain c where
    c: "c \<in> set ?cs" "bf' = fp @ ''.'' @ c" "bd' = compressed_with ?lib c ?b" "length bd' < length ?b"
    by (metis not_le)
  from fresh c have nf: "\<not> is_finalized' ?lib fs bf'" by simp
  have ex: "os_path_exists (atomic_write_append fs bf' WB bd') fp"
    using raw c(2) by (simp add: os_path_exists_def atomic_write_append_def update_conv')
  have "compress' self fs fp = (Inr bf', compressed_state fs fp c bd')"
    using ne(2) raw r(1) c(2) nf ex
    by (simp add: compress'_def write_file'_def os_remove_def compressed_state_def
          atomic_write_append_def)
  with c r(2) show ?thesis by auto
qed

lemma compress_keeps_raw:
  assumes raw: "map_of (files fs) fp = Some f"
    and known: "set (compressors self) \<subseteq> fst ` set (COMPRESSION_FUNCTIONS (library self))"
    and none: "\<not> (\<exists>c\<in>set (compressors self).
                    length (compressed_with (library self) c (content f)) < length (content f))"
  shows "compress' self fs fp = (Inr fp, fs) \<or> (\<exists>e. compress' self fs fp = (Inl e, fs))"
proof (cases "content f = [] \<or> compressors self = []")
  case True
  then show ?thesis
  proof
    assume "compressors self = []"
    then show ?thesis by (simp add: compress'_def)
  next
    assume e: "content f = []"
    show ?thesis
    proof (cases "compressors self = []")
      case True
      then show ?thesis by (simp add: compress'_def)
    next
      case False
      from compress_loop_empty_data [OF this] obtain e' where
        "compress_loop (library self) fp [] (compressors self) (fp, []) = Inl e'" by blast
      with False raw e show ?thesis by (simp add: compress'_def)
    qed
  qed
next
  case False
  then have ne: "content f \<noteq> []" "compressors self \<noteq> []" by auto
  let ?b = "content f" and ?cs = "compressors self" and ?lib = "library self"
  from compress_loop_result [OF known ne(1), of fp fp ?b] obtain bf' bd' where
    r: "compress_loop ?lib fp ?b ?cs (fp, ?b) = Inr (bf', bd')"
       "(bf', bd') = (fp, ?b) \<and> (\<forall>c\<in>set ?cs. length ?b \<le> length (compressed_with ?lib c ?b)) \<or>
        (\<exists>c\<in>set ?cs. bf' = fp @ ''.'' @ c \<and> bd' = compressed_with ?lib c ?b \<and>
                       length bd' < length ?b)"
    by blast
  from r(2) none have "(bf', bd') = (fp, ?b)" by blast
  with r(1) ne(2) raw show ?thesis by (simp add: compress'_def)
qed

text \<open>
  Claim C4. Let \<^verbatim>\<open>finalize\<close> run on a path that resolves to a raw file \<open>f\<close>, in a store
  whose compressors are all keys of the compression table and none of whose compressed
  targets is itself finalized. If the output of some compressor on the bytes of \<open>f\<close>
  is strictly shorter than these bytes, then there is a compressor \<open>c\<close> of the store
  whose output is no longer than the output of any other and strictly shorter than the
  raw bytes, the call returns, the file under the path with the suffix \<open>.c\<close> holds that
  output and the raw file is gone. If no output is strictly shorter, the raw file still
  holds its bytes and no other path of the file system has changed: no compressed
  sibling has been created.
\<close>

theorem finalize_compression_selection:
  assumes path: "get_absolute_path' self p = Inr fp"
    and raw: "map_of (files fs) fp = Some f"
    and known: "set (compressors self) \<subseteq> fst ` set (COMPRESSION_FUNCTIONS (library self))"
    and fresh: "\<forall>c\<in>set (compressors self). \<not> is_finalized' (library self) fs (fp @ ''.'' @ c)"
    and run: "finalize self fs p = (r, fs')"
  shows "((\<exists>c\<in>set (compressors self).
             length (compressed_with (library self) c (content f)) < length (content f)) \<longrightarrow>
          (\<exists>c\<in>set (compressors self).
             (\<forall>c'\<in>set (compressors self).
                length (compressed_with (library self) c (content f))
                  \<le> length (compressed_with (library self) c' (content f))) \<and>
             length (compressed_with (library self) c (content f)) < length (content f) \<and>
             r = Inr () \<and>
             map_option content (map_of (files fs') (fp @ ''.'' @ c))
               = Some (compressed_with (library self) c (content f)) \<and>
             map_of (files fs') fp = None)) \<and>
         (\<not> (\<exists>c\<in>set (compressors self).
             length (compressed_with (library self) c (content f)) < length (content f)) \<longrightarrow>
          map_option content (map_of (files fs') fp) = Some (content f) \<and>
          (\<forall>q. q \<noteq> fp \<longrightarrow> map_of (files fs') q = map_of (files fs) q))"
proof (intro conjI impI)
  assume "\<exists>c\<in>set (compressors self).
             length (compressed_with (library self) c (content f)) < length (content f)"
  from compress_selects_smallest [OF raw known fresh this] obtain c where
    c: "c \<in> set (compressors self)"
       "\<forall>c'\<in>set (compressors self).
              length (compressed_with (library self) c (content f))
                \<le> length (compressed_with (library self) c' (content f))"
       "length (compressed_with (library self) c (content f)) < length (content f)"
       "compress' self fs fp =
             (Inr (fp @ ''.'' @ c),
              compressed_state fs fp c (compressed_with (library self) c (content f)))"
    by blast
  let ?fs1 = "compressed_state fs fp c (compressed_with (library self) c (content f))"
  have l: "map_of (files ?fs1) (fp @ ''.'' @ c) =
             Some \<lparr>content = compressed_with (library self) c (content f), st_mode = new_file_mode fs\<rparr>"
    by (simp add: compressed_state_lookup)
  from run path c(4) have d: "drop_write_permissions ?fs1 (fp @ ''.'' @ c) = (r, fs')"
    by (simp add: finalize_def finalize'_def)
  from drop_write_permissions_lookup [OF l d]
  have "r = Inr ()"
    "map_option content (map_of (files fs') (fp @ ''.'' @ c))
       = Some (compressed_with (library self) c (content f))"
    "map_of (files fs') fp = None"
    by (simp_all add: compressed_state_lookup)
  with c show "\<exists>c\<in>set (compressors self).
             (\<forall>c'\<in>set (compressors self).
                length (compressed_with (library self) c (content f))
                  \<le> length (compressed_with (library self) c' (content f))) \<and>
             length (compressed_with (library self) c (content f)) < length (content f) \<and>
             r = Inr () \<and>
             map_option content (map_of (files fs') (fp @ ''.'' @ c))
               = Some (compressed_with (library self) c (content f)) \<and>
             map_of (files fs') fp = None"
    by blast
next
  assume none: "\<not> (\<exists>c\<in>set (compressors self).
             length (compressed_with (library self) c (content f)) < length (content f))"
  from compress_keeps_raw [OF raw known this]
  consider "compress' self fs fp = (Inr fp, fs)" | e where "compress' self fs fp = (Inl e, fs)"
    by blast
  then have "map_option content (map_of (files fs') fp) = Some (content f) \<and>
          (\<forall>q. q \<noteq> fp \<longrightarrow> map_of (files fs') q = map_of (files fs) q)"
  proof cases
    case 1
    with run path have d: "drop_write_permissions fs fp = (r, fs')"
      by (simp add: finalize_def finalize'_def)
    from drop_write_permissions_lookup [OF raw d] show ?thesis by simp
  next
    case 2
    with run path have "fs' = fs" by (simp add: finalize_def finalize'_def)
    with raw show ?thesis by simp
  qed
  then show "map_option content (map_of (files fs') fp) = Some (content f)"
    and "\<forall>q. q \<noteq> fp \<longrightarrow> map_of (files fs') q = map_of (files fs) q"
    by simp_all
qed


theorem finalize_compression_selection_witness:
  "get_absolute_path' sample_storage ''b.bin'' = Inr ''/data/b.bin'' \<and>
   length (compressed_with sample_library ''gz'' [65, 65, 65, 65, 65, 65, 65, 65]) < 8 \<and>
   map_of (files (snd (finalize sample_storage sample_fs ''b.bin''))) ''/data/b.bin'' = None \<and>
   map_option content
     (map_of (files (snd (finalize sample_storage sample_fs ''b.bin''))) ''/data/b.bin.gz'')
     = Some [8, 65] \<and>
   get_absolute_path' sample_storage ''c.bin'' = Inr ''/data/c.bin'' \<and>
   map_option content
     (map_of (files (snd (finalize sample_storage sample_fs ''c.bin''))) ''/data/c.bin'')
     = Some [1, 2, 3] \<and>
   map_of (files (snd (finalize sample_storage sample_fs ''c.bin''))) ''/data/c.bin.gz'' = None"
proof -
  let ?st = sample_storage and ?fs = sample_fs
  let ?fb = "\<lparr>content = [65, 65, 65, 65, 65, 65, 65, 65], st_mode = 420\<rparr> :: file_entry"
  let ?fc = "\<lparr>content = [1, 2, 3], st_mode = 420\<rparr> :: file_entry"
  have known: "set (compressors ?st) \<subseteq> fst ` set (COMPRESSION_FUNCTIONS (library ?st))"
    by (simp add: sample_storage_def COMPRESSION_FUNCTIONS_def)
  have pb: "get_absolute_path' ?st ''b.bin'' = Inr ''/data/b.bin''" by code_simp
  have pc: "get_absolute_path' ?st ''c.bin'' = Inr ''/data/c.bin''" by code_simp
  have rb: "map_of (files ?fs) ''/data/b.bin'' = Some ?fb" by code_simp
  have rc: "map_of (files ?fs) ''/data/c.bin'' = Some ?fc" by code_simp
  have nb: "\<not> is_finalized' sample_library ?fs ''/data/b.bin.gz''"
    "\<not> is_finalized' sample_library ?fs ''/data/b.bin.bz2''"
    "\<not> is_finalized' sample_library ?fs ''/data/b.bin.xz''"
    by code_simp+
  have nc: "\<not> is_finalized' sample_library ?fs ''/data/c.bin.gz''"
    "\<not> is_finalized' sample_library ?fs ''/data/c.bin.bz2''"
    "\<not> is_finalized' sample_library ?fs ''/data/c.bin.xz''"
    by code_simp+
  have fb: "\<forall>c\<in>set (compressors ?st). \<not> is_finalized' (library ?st) ?fs (''/data/b.bin'' @ ''.'' @ c)"
    using nb by (simp add: sample_storage_def)
  have fc: "\<forall>c\<in>set (compressors ?st). \<not> is_finalized' (library ?st) ?fs (''/data/c.bin'' @ ''.'' @ c)"
    using nc by (simp add: sample_storage_def)
  have gz: "compressed_with sample_library ''gz'' [65, 65, 65, 65, 65, 65, 65, 65] = [8, 65]"
    by code_simp
  have sz: "length (compressed_with sample_library ''gz'' [1, 2, 3]) = 6"
    "length (compressed_with sample_library ''bz2'' [1, 2, 3]) = 4"
    "length (compressed_with sample_library ''xz'' [1, 2, 3]) = 5"
    by code_simp+
  have smaller: "\<exists>c\<in>set (compressors ?st).
      length (compressed_with (library ?st) c (content ?fb)) < length (content ?fb)"
    using gz by (simp add: sample_storage_def)
  have none: "\<not> (\<exists>c\<in>set (compressors ?st).
      length (compressed_with (library ?st) c (content ?fc)) < length (content ?fc))"
    using sz by (simp add: sample_storage_def)
  have gzc: "map_of (files (snd (finalize ?st ?fs ''c.bin''))) ''/data/c.bin.gz''
      = map_of (files ?fs) ''/data/c.bin.gz''"
    using finalize_compression_selection [OF pc rc known fc surjective_pairing] none
    by simp
  have "map_of (files (snd (finalize ?st ?fs ''b.bin''))) ''/data/b.bin'' = None"
    using finalize_compression_selection [OF pb rb known fb surjective_pairing] smaller
    by blast
  moreover have "map_option content
     (map_of (files (snd (finalize ?st ?fs ''b.bin''))) ''/data/b.bin.gz'') = Some [8, 65]"
    by code_simp
  moreover have "map_option content
     (map_of (files (snd (finalize ?st ?fs ''c.bin''))) ''/data/c.bin'') = Some [1, 2, 3]"
    using finalize_compression_selection [OF pc rc known fc surjective_pairing] none
    by simp
  moreover have "map_of (files ?fs) ''/data/c.bin.gz'' = None" by code_simp
  ultimately show ?thesis using pb pc gz gzc by simp
qed

subsection \<open>Loading what was saved\<close>

lemma not_finalized_no_sibling:
  "\<not> is_finalized' lib fs fp \<Longrightarrow>
   map_of (files fs) (fp @ ''.gz'') = None \<and> map_of (files fs) (fp @ ''.bz2'') = None \<and>
   map_of (files fs) (fp @ ''.xz'') = None"
  by (simp add: is_finalized'_def exist_compressed_file_def DECOMPRESSION_FUNCTIONS_def
        os_path_exists_def)

lemma load_from_raw:
  "map_of (files fs) (fp @ ''.gz'') = None \<Longrightarrow> map_of (files fs) (fp @ ''.bz2'') = None \<Longrightarrow>
   map_of (files fs) (fp @ ''.xz'') = None \<Longrightarrow> map_of (files fs) fp = Some f \<Longrightarrow>
   load_from fs fp (DECOMPRESSION_FUNCTIONS lib) = Inr (content f)"
  by (simp add: DECOMPRESSION_FUNCTIONS_def)

lemma load_from_sibling:
  assumes "c \<in> fst ` set (COMPRESSION_FUNCTIONS lib)"
    and "map_of (files fs) (fp @ ''.'' @ c) = Some f"
    and "\<And>d. d \<in> {''gz'', ''bz2'', ''xz''} \<Longrightarrow> d \<noteq> c \<Longrightarrow>
           map_of (files fs) (fp @ ''.'' @ d) = None"
  shows "load_from fs fp (DECOMPRESSION_FUNCTIONS lib) = decompressed_with lib c (content f)"
proof -
  from assms(1) consider "c = ''gz''" | "c = ''bz2''" | "c = ''xz''"
    by (auto simp: COMPRESSION_FUNCTIONS_def)
  then show ?thesis
  proof cases
    case 1
    with assms(2) show ?thesis
      by (simp add: DECOMPRESSION_FUNCTIONS_def decompressed_with_def)
  next
    case 2
    with assms(3) [of "''gz''"] have "map_of (files fs) (fp @ ''.'' @ ''gz'') = None" by simp
    with 2 assms(2) show ?thesis
      by (simp add: DECOMPRESSION_FUNCTIONS_def decompressed_with_def)
  next
    case 3
    with assms(3) [of "''gz''"] assms(3) [of "''bz2''"]
    have "map_of (files fs) (fp @ ''.'' @ ''gz'') = None"
      "map_of (files fs) (fp @ ''.'' @ ''bz2'') = None" by simp_all
    with 3 assms(2) show ?thesis
      by (simp add: DECOMPRESSION_FUNCTIONS_def decompressed_with_def)
  qed
qed

text \<open>
  Claim C5. Let the store accept the relative path \<open>p\<close>, let the target not be finalized
  (no compressed sibling of it exists and, if the file exists, it can be written), and
  let every compressor of the store give the bytes \<open>b\<close> back through its decompressor.
  Then after \<^verbatim>\<open>save(p, b, is_final=True)\<close>, whatever it returned, \<^verbatim>\<open>load(p)\<close> returns
  exactly \<open>b\<close>: from the one compressed sibling the save has left, or from the raw path.
\<close>

theorem load_after_final_save:
  assumes path: "get_absolute_path' self p = Inr fp"
    and nf: "\<not> is_finalized' (library self) fs fp"
    and rt: "\<forall>c\<in>set (compressors self).
               decompressed_with (library self) c (compressed_with (library self) c b) = Inr b"
  shows "load self (snd (save self fs p b True)) p = Inr b"
proof -
  let ?lib = "library self"
  define fs1 where "fs1 = atomic_write_append fs fp WB b"
  define f1 where "f1 = \<lparr>content = b, st_mode = new_file_mode fs\<rparr>"
  have l1: "map_of (files fs1) q = (if q = fp then Some f1 else map_of (files fs) q)" for q
    by (simp add: fs1_def f1_def atomic_write_append_def update_conv')
  from not_finalized_no_sibling [OF nf]
  have sib: "map_of (files fs1) (fp @ ''.gz'') = None" "map_of (files fs1) (fp @ ''.bz2'') = None"
    "map_of (files fs1) (fp @ ''.xz'') = None"
    by (simp_all add: l1)
  have raw: "map_of (files fs1) fp = Some f1" by (simp add: l1)
  obtain r fs2 where c: "compress' self fs1 fp = (r, fs2)" by (cases "compress' self fs1 fp")
  have sv: "save self fs p b True = finalize' self fs1 fp"
    using path nf by (simp add: save_def persist'_def write_file'_def fs1_def)
  have ld: "load self fs' p = load_from fs' fp (DECOMPRESSION_FUNCTIONS ?lib)" for fs'
    using path by (simp add: load_def)
  from compress_cases [OF c raw]
  consider "fs2 = fs1" "r = Inr fp" | e where "fs2 = fs1" "r = Inl e"
    | c' where "c' \<in> set (compressors self)" "c' \<in> fst ` set (COMPRESSION_FUNCTIONS ?lib)"
        "r = Inr (fp @ ''.'' @ c')"
        "fs2 = compressed_state fs1 fp c' (compressed_with ?lib c' (content f1))"
    by blast
  then show ?thesis
  proof cases
    case 1
    obtain r3 fs3 where d: "drop_write_permissions fs1 fp = (r3, fs3)"
      by (cases "drop_write_permissions fs1 fp")
    from drop_write_permissions_lookup [OF raw d] sib
    obtain f3 where "map_of (files fs3) fp = Some f3" "content f3 = b"
      "map_of (files fs3) (fp @ ''.gz'') = None" "map_of (files fs3) (fp @ ''.bz2'') = None"
      "map_of (files fs3) (fp @ ''.xz'') = None"
      by (auto simp: f1_def)
    from load_from_raw [OF this(3,4,5,1)] this(2)
    have "load_from fs3 fp (DECOMPRESSION_FUNCTIONS ?lib) = Inr b" by simp
    with sv c 1 d show ?thesis by (simp add: finalize'_def ld)
  next
    case 2
    from load_from_raw [OF sib raw] have "load_from fs1 fp (DECOMPRESSION_FUNCTIONS ?lib) = Inr b"
      by (simp add: f1_def)
    with sv c 2 show ?thesis by (simp add: finalize'_def ld)
  next
    case 3
    let ?d = "compressed_with ?lib c' b"
    have l2: "map_of (files fs2) (fp @ ''.'' @ c') = Some \<lparr>content = ?d, st_mode = new_file_mode fs1\<rparr>"
      using 3(4) by (simp add: compressed_state_lookup f1_def)
    obtain r3 fs3 where d: "drop_write_permissions fs2 (fp @ ''.'' @ c') = (r3, fs3)"
      by (cases "drop_write_permissions fs2 (fp @ ''.'' @ c')")
    from drop_write_permissions_lookup [OF l2 d]
    obtain f3 where f3: "map_of (files fs3) (fp @ ''.'' @ c') = Some f3" "content f3 = ?d"
      and oth: "\<forall>q. q \<noteq> fp @ ''.'' @ c' \<longrightarrow> map_of (files fs3) q = map_of (files fs2) q"
      by auto
    from 3(2) have c'cases: "c' = ''gz'' \<or> c' = ''bz2'' \<or> c' = ''xz''"
      by (auto simp: COMPRESSION_FUNCTIONS_def)
    have none: "map_of (files fs3) (fp @ ''.'' @ d') = None"
      if "d' \<in> {''gz'', ''bz2'', ''xz''}" "d' \<noteq> c'" for d'
    proof -
      from that(2) oth have "map_of (files fs3) (fp @ ''.'' @ d') = map_of (files fs2) (fp @ ''.'' @ d')"
        by simp
      also have "\<dots> = map_of (files fs1) (fp @ ''.'' @ d')"
        using that(2) 3(4) by (simp add: compressed_state_lookup)
      also have "\<dots> = None" using that(1) sib by auto
      finally show ?thesis .
    qed
    from load_from_sibling [OF 3(2) f3(1) none]
    have "load_from fs3 fp (DECOMPRESSION_FUNCTIONS ?lib) = decompressed_with ?lib c' ?d"
      using f3(2) by simp
    also have "\<dots> = Inr b" using rt 3(1) by simp
    finally have "load_from fs3 fp (DECOMPRESSION_FUNCTIONS ?lib) = Inr b" .
    with sv c 3(3) d show ?thesis by (simp add: finalize'_def ld)
  qed
qed

theorem load_after_final_save_witness:
  "get_absolute_path' sample_storage ''d.bin'' = Inr ''/data/d.bin'' \<and>
   \<not> is_finalized' sample_library sample_fs ''/data/d.bin'' \<and>
   fst (save sample_storage sample_fs ''d.bin'' [7, 7, 7, 7, 7] True) = Inr () \<and>
   map_option content
     (map_of (files (snd (save sample_storage sample_fs ''d.bin'' [7, 7, 7, 7, 7] True)))
        ''/data/d.bin.gz'') = Some [5, 7] \<and>
   load sample_storage (snd (save sample_storage sample_fs ''d.bin'' [7, 7, 7, 7, 7] True)) ''d.bin''
     = Inr [7, 7, 7, 7, 7]"
proof -
  have p: "get_absolute_path' sample_storage ''d.bin'' = Inr ''/data/d.bin''" by code_simp
  have n: "\<not> is_finalized' sample_library sample_fs ''/data/d.bin''" by code_simp
  have n': "\<not> is_finalized' (library sample_storage) sample_fs ''/data/d.bin''"
    using n by (simp add: sample_storage_def)
  have r: "decompressed_with sample_library ''gz'' (compressed_with sample_library ''gz'' [7, 7, 7, 7, 7]) = Inr [7, 7, 7, 7, 7]"
    "decompressed_with sample_library ''bz2'' (compressed_with sample_library ''bz2'' [7, 7, 7, 7, 7]) = Inr [7, 7, 7, 7, 7]"
    "decompressed_with sample_library ''xz'' (compressed_with sample_library ''xz'' [7, 7, 7, 7, 7]) = Inr [7, 7, 7, 7, 7]"
    by code_simp+
  have rt: "\<forall>c\<in>set (compressors sample_storage).
      decompressed_with (library sample_storage) c
        (compressed_with (library sample_storage) c [7, 7, 7, 7, 7]) = Inr [7, 7, 7, 7, 7]"
    using r by (simp add: sample_storage_def)
  have s1: "fst (save sample_storage sample_fs ''d.bin'' [7, 7, 7, 7, 7] True) = Inr ()"
    by code_simp
  have s2: "map_option content
     (map_of (files (snd (save sample_storage sample_fs ''d.bin'' [7, 7, 7, 7, 7] True)))
        ''/data/d.bin.gz'') = Some [5, 7]"
    by code_simp
  from load_after_final_save [OF p n' rt] p n s1 s2 show ?thesis by simp
qed

section \<open>Properties of the block store\<close>

subsection \<open>Writing a block\<close>

lemma zfill_str_int_inj:
  assumes "0 \<le> a" "0 \<le> b" "zfill (str_int a) w = zfill (str_int b) w"
  shows "a = b"
proof -
  from assms have "replicate (w - length (str_nat (nat a))) CHR ''0'' @ str_nat (nat a)
      = replicate (w - length (str_nat (nat b))) CHR ''0'' @ str_nat (nat b)"
    by (simp add: str_int_def zfill_str_nat)
  then have "nat_of_digits (replicate (w - length (str_nat (nat a))) CHR ''0'' @ str_nat (nat a)) 0
      = nat_of_digits (replicate (w - length (str_nat (nat b))) CHR ''0'' @ str_nat (nat b)) 0"
    by simp
  then have "nat a = nat b" by (simp only: nat_of_digits_padded)
  with assms(1,2) show ?thesis by simp
qed

lemma make_block_chunk_filename_end_inj:
  assumes "0 \<le> a" "0 \<le> b"
  shows "make_block_chunk_filename s a = make_block_chunk_filename s b \<longleftrightarrow> a = b"
proof
  assume "make_block_chunk_filename s a = make_block_chunk_filename s b"
  then have "zfill (str_int a) ORDER_OF_BLOCK = zfill (str_int b) ORDER_OF_BLOCK"
    by (simp add: make_block_chunk_filename_def)
  from zfill_str_int_inj [OF assms this] show "a = b" .
qed simp

text \<open>
  Claim C1. For a block with number \<open>n \<ge> 0\<close> and a chunk size \<open>s > 0\<close>, with the lock
  held, \<^verbatim>\<open>persist_block\<close> computes the start of the chunk as \<open>(n div s) * s\<close>, appends
  the serialized block to the chunk file named by the start and \<open>n - 1\<close> when \<open>n\<close> is
  not the start, and by the start and \<open>n\<close> when it is, renames that file to the name of
  the start and \<open>n\<close> when the two names differ, which is the case exactly when \<open>n\<close> is
  not the start of the chunk, and finalizes the file if and only if
  \<open>n mod s = s - 1\<close>; an exception of one step ends the call. The start of the chunk
  is at most \<open>n\<close> and more than \<open>n - s\<close>.
\<close>

theorem persist_block_chunk_layout:
  assumes "is_locked w" and "0 < block_chunk_size self" and "0 \<le> block_number (message block)"
  shows
    "(let n = block_number (message block);
          s = block_chunk_size self;
          chunk_start = (n div s) * s;
          name_before = make_block_chunk_filename chunk_start (if n = chunk_start then n else n - 1);
          name = make_block_chunk_filename chunk_start n
      in persist_block self w block =
           (case po_append (block_storage self) (disk w) name_before
                   (block_to_messagepack self block) False of
              (Inl e, fs1) \<Rightarrow> (Inl e, w\<lparr>disk := fs1\<rparr>)
            | (Inr u, fs1) \<Rightarrow>
                (case (if name_before \<noteq> name
                       then po_move (block_storage self) fs1 name_before name
                       else (Inr (), fs1)) of
                   (Inl e, fs2) \<Rightarrow> (Inl e, w\<lparr>disk := fs2\<rparr>)
                 | (Inr v, fs2) \<Rightarrow>
                     if n mod s = s - 1
                     then (case po_finalize (block_storage self) fs2 name of
                             (r, fs3) \<Rightarrow> (r, w\<lparr>disk := fs3\<rparr>))
                     else (Inr (), w\<lparr>disk := fs2\<rparr>))) \<and>
         (name_before \<noteq> name \<longleftrightarrow> n \<noteq> chunk_start) \<and>
         chunk_start \<le> n \<and> n < chunk_start + s)"
proof -
  let ?n = "block_number (message block)" and ?s = "block_chunk_size self"
  let ?cs = "(?n div ?s) * ?s"
  have split: "?n = ?cs + ?n mod ?s" by simp
  from assms(2) have "0 \<le> ?n mod ?s" "?n mod ?s < ?s" by simp_all
  with split have le: "?cs \<le> ?n" "?n < ?cs + ?s" by linarith+
  from assms(2,3) have nonneg: "0 \<le> ?cs" by (simp add: pos_imp_zdiv_nonneg_iff)
  have differ: "make_block_chunk_filename ?cs (if ?n = ?cs then ?n else ?n - 1)
                  \<noteq> make_block_chunk_filename ?cs ?n \<longleftrightarrow> ?n \<noteq> ?cs"
  proof (cases "?n = ?cs")
    case True
    then show ?thesis by simp
  next
    case False
    with le nonneg have "0 \<le> ?n - 1" by linarith
    from make_block_chunk_filename_end_inj [OF this assms(3), of ?cs] False
    show ?thesis by simp
  qed
  have ok: "\<not> (?cs \<noteq> ?n \<and> \<not> ?cs < ?n)" using le by linarith
  show ?thesis
    unfolding Let_def
    using assms(1,2) ok differ le
    by (simp add: persist_block_def ensure_locked_def Let_def)
qed

theorem persist_block_chunk_layout_witness:
  "is_locked (sample_world [] []) \<and>
   (0::int) < block_chunk_size (sample_blockchain 2) \<and>
   (0::int) \<le> block_number (message (sample_block 1)) \<and>
   make_block_chunk_filename 0 0 \<noteq> make_block_chunk_filename 0 1 \<and>
   persist_block (sample_blockchain 2)
     (snd (persist_block (sample_blockchain 2) (sample_world [] []) (sample_block 0)))
     (sample_block 1) =
     (Inr (),
      sample_world
        [(''/chain/blocks/0/00000000000000000000-00000000000000000001-block-chunk.msgpack'',
          \<lparr>content = [0, 1], st_mode = 256\<rparr>)] [])"
proof -
  let ?w = "snd (persist_block (sample_blockchain 2) (sample_world [] []) (sample_block 0))"
  have l: "is_locked ?w" by code_simp
  have l0: "is_locked (sample_world [] [])" by code_simp
  have s: "(0::int) < block_chunk_size (sample_blockchain 2)" by code_simp
  have n: "(0::int) \<le> block_number (message (sample_block 1))" by code_simp
  have e: "block_number (message (sample_block 1)) = 1" "block_chunk_size (sample_blockchain 2) = 2"
    by code_simp+
  from persist_block_chunk_layout [OF l s n]
  have "make_block_chunk_filename 0 0 \<noteq> make_block_chunk_filename 0 1"
    by (simp add: e Let_def)
  moreover have "persist_block (sample_blockchain 2) ?w (sample_block 1) =
     (Inr (),
      sample_world
        [(''/chain/blocks/0/00000000000000000000-00000000000000000001-block-chunk.msgpack'',
          \<lparr>content = [0, 1], st_mode = 256\<rparr>)] [])"
    by code_simp
  ultimately show ?thesis using l0 s n by simp
qed

section \<open>Properties of the blockchain state store\<close>

lemma finalize_success_finalized:
  assumes "finalize' self fs fp = (Inr u, fs')" and "map_of (files fs) fp = Some f"
  shows "is_finalized' (library self) fs' fp"
proof -
  obtain r fs1 where c: "compress' self fs fp = (r, fs1)" by (cases "compress' self fs fp")
  from compress_cases [OF c assms(2)]
  consider "fs1 = fs" "r = Inr fp" | e where "fs1 = fs" "r = Inl e"
    | c' where "c' \<in> set (compressors self)" "c' \<in> fst ` set (COMPRESSION_FUNCTIONS (library self))"
        "r = Inr (fp @ ''.'' @ c')"
        "fs1 = compressed_state fs fp c' (compressed_with (library self) c' (content f))"
    by blast
  then show ?thesis
  proof cases
    case 1
    with assms(1) c have d: "drop_write_permissions fs fp = (Inr u, fs')"
      by (simp add: finalize'_def)
    from drop_write_permissions_lookup [OF assms(2) d]
    have "map_option content (map_of (files fs') fp) = Some (content f)"
      "has_write_permissions fs' fp = Inr False" by simp_all
    then show ?thesis by (auto simp: is_finalized'_def os_path_exists_def)
  next
    case 2
    with assms(1) c show ?thesis by (simp add: finalize'_def)
  next
    case 3
    let ?d = "compressed_with (library self) c' (content f)"
    have l: "map_of (files fs1) (fp @ ''.'' @ c') = Some \<lparr>content = ?d, st_mode = new_file_mode fs\<rparr>"
      using 3(4) by (simp add: compressed_state_lookup)
    from assms(1) c 3(3) have d: "drop_write_permissions fs1 (fp @ ''.'' @ c') = (Inr u, fs')"
      by (simp add: finalize'_def)
    from drop_write_permissions_lookup [OF l d]
    have ex: "os_path_exists fs' (fp @ ''.'' @ c')" by (auto simp: os_path_exists_def)
    from 3(2) have "c' = ''gz'' \<or> c' = ''bz2'' \<or> c' = ''xz''"
      by (auto simp: COMPRESSION_FUNCTIONS_def)
    with ex show ?thesis
      by (auto simp: is_finalized'_def exist_compressed_file_def DECOMPRESSION_FUNCTIONS_def)
  qed
qed

lemma save_final_success_finalized:
  assumes "save self fs p b True = (Inr u, fs')"
  shows "is_finalized self fs' p = Inr True"
proof -
  from assms obtain fp where path: "get_absolute_path' self p = Inr fp"
    by (auto simp: save_def persist'_def split: sum.splits)
  from assms path have nf: "\<not> is_finalized' (library self) fs fp"
    by (auto simp: save_def persist'_def write_file'_def split: if_splits)
  let ?fs1 = "atomic_write_append fs fp WB b"
  have raw: "map_of (files ?fs1) fp = Some \<lparr>content = b, st_mode = new_file_mode fs\<rparr>"
    by (simp add: atomic_write_append_def update_conv')
  from assms path nf have "finalize' self ?fs1 fp = (Inr u, fs')"
    by (simp add: save_def persist'_def write_file'_def)
  from finalize_success_finalized [OF this raw] path show ?thesis
    by (simp add: is_finalized_def)
qed

lemma persist_blockchain_state_finalized:
  assumes "persist_blockchain_state self w s = (Inr u, w')"
  shows "po_is_finalized (blockchain_states_storage self) (disk w')
           (make_blockchain_state_filename (last_block_number s)) = Inr True"
proof -
  let ?name = "make_blockchain_state_filename (last_block_number s)"
  obtain r fs1 where sv: "po_save (blockchain_states_storage self) (disk w) ?name
      (state_to_messagepack self s) True = (r, fs1)"
    by (cases "po_save (blockchain_states_storage self) (disk w) ?name
      (state_to_messagepack self s) True")
  from assms sv have "r = Inr u" "disk w' = fs1"
    by (auto simp: persist_blockchain_state_def ensure_locked_def Let_def split: if_splits)
  with sv save_final_success_finalized show ?thesis
    by (simp add: po_save_def po_is_finalized_def)
qed

lemma lru_get_entries:
  assumes "lru_get cache k = (r, cache')"
  shows "set (entries cache') \<subseteq> set (entries cache) \<and> r = map_of (entries cache) k"
proof (cases "map_of (entries cache) k")
  case None
  with assms show ?thesis by (simp add: lru_get_def)
next
  case (Some v)
  then have "(k, v) \<in> set (entries cache)" by (rule map_of_SomeD)
  with assms Some show ?thesis by (auto simp: lru_get_def)
qed

lemma lru_set_entries:
  "lru_set cache k v = Inr cache' \<Longrightarrow> set (entries cache') \<subseteq> insert (k, v) (set (entries cache))"
  by (auto simp: lru_set_def Let_def split: if_splits dest: in_set_dropD)

lemma load_blockchain_states_sound:
  assumes inv: "cache_from_finalized_files self w"
    and run: "load_blockchain_states' self w p = (Inr s, w1)"
  shows "from_finalized_file self (disk w) p s \<and> disk w1 = disk w \<and>
         cache_from_finalized_files self w1"
proof -
  obtain r cache where g: "lru_get (blockchain_states_cache w) p = (r, cache)"
    by (cases "lru_get (blockchain_states_cache w) p")
  from lru_get_entries [OF g] have ge: "set (entries cache) \<subseteq> set (entries (blockchain_states_cache w))"
    "r = map_of (entries (blockchain_states_cache w)) p" by simp_all
  show ?thesis
  proof (cases r)
    case (Some s')
    with run g have eq: "s = s'" "w1 = w\<lparr>blockchain_states_cache := cache\<rparr>"
      by (simp_all add: load_blockchain_states'_def)
    from Some ge(2) have "(p, s') \<in> set (entries (blockchain_states_cache w))"
      by (simp add: map_of_SomeD)
    with inv have "from_finalized_file self (disk w) p s'"
      by (auto simp: cache_from_finalized_files_def list_all_iff)
    with eq inv ge(1) show ?thesis
      by (auto simp: cache_from_finalized_files_def list_all_iff)
  next
    case None
    with run g obtain data cache1 where
      fin: "po_is_finalized (blockchain_states_storage self) (disk w) p = Inr True"
      and ld: "po_load (blockchain_states_storage self) (disk w) p = Inr data"
      and dec: "state_from_messagepack self data = Inr s"
      and st: "lru_set (blockchain_states_cache w) p s = Inr cache1"
      and w1: "w1 = w\<lparr>blockchain_states_cache := cache1\<rparr>"
      by (auto simp: load_blockchain_states'_def split: sum.splits bool.splits)
    from fin ld dec have f: "from_finalized_file self (disk w) p s"
      by (simp add: from_finalized_file_def)
    from lru_set_entries [OF st] inv f w1 have "cache_from_finalized_files self w1"
      by (auto simp: cache_from_finalized_files_def list_all_iff)
    with f w1 show ?thesis by simp
  qed
qed

lemma load_blockchain_states_asserts:
  assumes "map_of (entries (blockchain_states_cache w)) p = None"
    and "po_is_finalized (blockchain_states_storage self) (disk w) p \<noteq> Inr True"
  shows "\<exists>e. load_blockchain_states' self w p = (Inl e, w)"
  using assms
  by (auto simp: load_blockchain_states'_def lru_get_def split: sum.splits bool.splits)

lemma load_each_blockchain_state_sound:
  assumes "cache_from_finalized_files self w"
    and "load_each_blockchain_state self w paths = (ys, e, w_end)"
  shows "disk w_end = disk w \<and> cache_from_finalized_files self w_end \<and>
         list_all (\<lambda>y. \<exists>p\<in>set paths. from_finalized_file self (disk w) p (fst y)) ys"
  using assms
proof (induction paths arbitrary: w ys e w_end)
  case Nil
  then show ?case by simp
next
  case (Cons p paths)
  obtain r w1 where l: "load_blockchain_states' self w p = (r, w1)"
    by (cases "load_blockchain_states' self w p")
  show ?case
  proof (cases r)
    case (Inl err)
    from Inl l Cons.prems(2) have "ys = []" "w_end = w1" by simp_all
    moreover from Inl l have "w1 = w"
      by (auto simp: load_blockchain_states'_def lru_get_def split: option.splits sum.splits bool.splits)
    ultimately show ?thesis using Cons.prems(1) by simp
  next
    case (Inr s)
    from load_blockchain_states_sound [OF Cons.prems(1) l [unfolded Inr]]
    have s: "from_finalized_file self (disk w) p s" "disk w1 = disk w"
      "cache_from_finalized_files self w1" by simp_all
    obtain ys' e' w2 where rest: "load_each_blockchain_state self w1 paths = (ys', e', w2)"
      by (cases "load_each_blockchain_state self w1 paths") auto
    from Cons.prems(2) l Inr rest have eq: "ys = (s, w1) # ys'" "w_end = w2" "e = e'" by simp_all
    from Cons.IH [OF s(3) rest] s(2)
    have "disk w2 = disk w" "cache_from_finalized_files self w2"
      "list_all (\<lambda>y. \<exists>p\<in>set paths. from_finalized_file self (disk w) p (fst y)) ys'"
      by simp_all
    with eq s(1) show ?thesis by (auto simp: list_all_iff)
  qed
qed

text \<open>
  Claim C9. A call of \<^verbatim>\<open>persist_blockchain_state\<close> that returns has saved the state
  with \<^verbatim>\<open>is_final=True\<close>: the store reports the file of the state as finalized. A load
  of a path that is not in the cache fails without effect unless the store reports the
  path as finalized. When every entry of the cache comes from a finalized file, a load
  that returns gives a state that comes from the finalized file under its path and
  leaves the file system as it is and the cache sound; and every state that
  \<^verbatim>\<open>yield_blockchain_states\<close> or \<^verbatim>\<open>yield_blockchain_states_reversed\<close> yields comes from a
  finalized file under a path of the listing, with the file system unchanged and the
  cache sound at the end.
\<close>

theorem blockchain_states_come_from_finalized_files:
  "(persist_blockchain_state self w s = (Inr (), w') \<longrightarrow>
      po_is_finalized (blockchain_states_storage self) (disk w')
        (make_blockchain_state_filename (last_block_number s)) = Inr True) \<and>
   (map_of (entries (blockchain_states_cache w)) p = None \<longrightarrow>
    po_is_finalized (blockchain_states_storage self) (disk w) p \<noteq> Inr True \<longrightarrow>
      (\<exists>e. load_blockchain_states' self w p = (Inl e, w))) \<and>
   (cache_from_finalized_files self w \<longrightarrow>
    load_blockchain_states' self w p = (Inr s1, w1) \<longrightarrow>
      from_finalized_file self (disk w) p s1 \<and> disk w1 = disk w \<and>
      cache_from_finalized_files self w1) \<and>
   (cache_from_finalized_files self w \<longrightarrow>
    yield_blockchain_states self w = (ys, e, w_end) \<longrightarrow>
      disk w_end = disk w \<and> cache_from_finalized_files self w_end \<and>
      list_all
        (\<lambda>y. \<exists>q\<in>set (po_list_directory (blockchain_states_storage self) (disk w) (Some 1)).
               from_finalized_file self (disk w) q (fst y)) ys) \<and>
   (cache_from_finalized_files self w \<longrightarrow>
    yield_blockchain_states_reversed self w = (ys', e', w_end') \<longrightarrow>
      disk w_end' = disk w \<and> cache_from_finalized_files self w_end' \<and>
      list_all
        (\<lambda>y. \<exists>q\<in>set (po_list_directory (blockchain_states_storage self) (disk w) (Some (- 1))).
               from_finalized_file self (disk w) q (fst y)) ys')"
proof (intro conjI impI)
  assume "persist_blockchain_state self w s = (Inr (), w')"
  then show "po_is_finalized (blockchain_states_storage self) (disk w')
        (make_blockchain_state_filename (last_block_number s)) = Inr True"
    by (rule persist_blockchain_state_finalized)
next
  assume "map_of (entries (blockchain_states_cache w)) p = None"
    and "po_is_finalized (blockchain_states_storage self) (disk w) p \<noteq> Inr True"
  then show "\<exists>e. load_blockchain_states' self w p = (Inl e, w)"
    by (rule load_blockchain_states_asserts)
next
  assume a: "cache_from_finalized_files self w" "load_blockchain_states' self w p = (Inr s1, w1)"
  from load_blockchain_states_sound [OF a]
  show "from_finalized_file self (disk w) p s1" "disk w1 = disk w"
    "cache_from_finalized_files self w1"
    by simp_all
next
  assume a: "cache_from_finalized_files self w" "yield_blockchain_states self w = (ys, e, w_end)"
  from a(2) have "load_each_blockchain_state self w
      (po_list_directory (blockchain_states_storage self) (disk w) (Some 1)) = (ys, e, w_end)"
    by (simp add: yield_blockchain_states_def yield_blockchain_states'_def)
  from load_each_blockchain_state_sound [OF a(1) this]
  show "disk w_end = disk w" "cache_from_finalized_files self w_end"
    "list_all
        (\<lambda>y. \<exists>q\<in>set (po_list_directory (blockchain_states_storage self) (disk w) (Some 1)).
               from_finalized_file self (disk w) q (fst y)) ys"
    by simp_all
next
  assume a: "cache_from_finalized_files self w"
    "yield_blockchain_states_reversed self w = (ys', e', w_end')"
  from a(2) have "load_each_blockchain_state self w
      (po_list_directory (blockchain_states_storage self) (disk w) (Some (- 1))) = (ys', e', w_end')"
    by (simp add: yield_blockchain_states_reversed_def yield_blockchain_states'_def)
  from load_each_blockchain_state_sound [OF a(1) this]
  show "disk w_end' = disk w" "cache_from_finalized_files self w_end'"
    "list_all
        (\<lambda>y. \<exists>q\<in>set (po_list_directory (blockchain_states_storage self) (disk w) (Some (- 1))).
               from_finalized_file self (disk w) q (fst y)) ys'"
    by simp_all
qed

theorem blockchain_states_come_from_finalized_files_witness:
  "persist_blockchain_state (sample_blockchain 2) (sample_world [] []) (sample_state None) =
     (Inr (), sample_world [(''/chain/blockchain-states/0/000000000!-arf.msgpack'',
                             \<lparr>content = [0], st_mode = 256\<rparr>)] []) \<and>
   po_is_finalized (blockchain_states_storage (sample_blockchain 2))
     (disk (sample_world [(''/chain/blockchain-states/0/000000000!-arf.msgpack'',
                           \<lparr>content = [0], st_mode = 256\<rparr>)] []))
     ''000000000!-arf.msgpack'' = Inr True \<and>
   fst (load_blockchain_states' (sample_blockchain 2)
          (sample_world [(''/chain/blockchain-states/0/000000000!-arf.msgpack'',
                          \<lparr>content = [0], st_mode = 256\<rparr>)] []) ''1111111111-arf.msgpack'')
     = Inl AssertionError \<and>
   cache_from_finalized_files (sample_blockchain 2)
     (sample_world [(''/chain/blockchain-states/0/000000000!-arf.msgpack'',
                     \<lparr>content = [0], st_mode = 256\<rparr>)] []) \<and>
   map fst (fst (yield_blockchain_states (sample_blockchain 2)
          (sample_world [(''/chain/blockchain-states/0/000000000!-arf.msgpack'',
                          \<lparr>content = [0], st_mode = 256\<rparr>)] []))) = [sample_state None] \<and>
   from_finalized_file (sample_blockchain 2)
     (disk (sample_world [(''/chain/blockchain-states/0/000000000!-arf.msgpack'',
                           \<lparr>content = [0], st_mode = 256\<rparr>)] []))
     ''000000000!-arf.msgpack'' (sample_state None) \<and>
   map fst (fst (yield_blockchain_states_reversed (sample_blockchain 2)
          (sample_world [(''/chain/blockchain-states/0/000000000!-arf.msgpack'',
                          \<lparr>content = [0], st_mode = 256\<rparr>)] []))) = [sample_state None] \<and>
   disk (snd (snd (yield_blockchain_states (sample_blockchain 2)
          (sample_world [(''/chain/blockchain-states/0/000000000!-arf.msgpack'',
                          \<lparr>content = [0], st_mode = 256\<rparr>)] [])))) =
     disk (sample_world [(''/chain/blockchain-states/0/000000000!-arf.msgpack'',
                          \<lparr>content = [0], st_mode = 256\<rparr>)] []) \<and>
   disk (snd (snd (yield_blockchain_states_reversed (sample_blockchain 2)
          (sample_world [(''/chain/blockchain-states/0/000000000!-arf.msgpack'',
                          \<lparr>content = [0], st_mode = 256\<rparr>)] [])))) =
     disk (sample_world [(''/chain/blockchain-states/0/000000000!-arf.msgpack'',
                          \<lparr>content = [0], st_mode = 256\<rparr>)] [])"
proof -
  let ?chain = "sample_blockchain 2" and ?w0 = "sample_world [] []"
  let ?g = "sample_state None"
  let ?w1 = "sample_world [(''/chain/blockchain-states/0/000000000!-arf.msgpack'',
                             \<lparr>content = [0], st_mode = 256\<rparr>)] []"
  let ?name = "''000000000!-arf.msgpack''"
  have p: "persist_blockchain_state ?chain ?w0 ?g = (Inr (), ?w1)" by code_simp
  have nm: "make_blockchain_state_filename (last_block_number ?g) = ?name" by code_simp
  have miss: "map_of (entries (blockchain_states_cache ?w1)) ''1111111111-arf.msgpack'' = None"
    by code_simp
  have nf: "po_is_finalized (blockchain_states_storage ?chain) (disk ?w1) ''1111111111-arf.msgpack''
      \<noteq> Inr True"
    by code_simp
  have inv: "cache_from_finalized_files ?chain ?w1" by code_simp
  have ld: "load_blockchain_states' ?chain ?w1 ?name =
      (Inr ?g, snd (load_blockchain_states' ?chain ?w1 ?name))"
    by code_simp
  have y: "map fst (fst (yield_blockchain_states ?chain ?w1)) = [?g]" by code_simp
  have yr: "map fst (fst (yield_blockchain_states_reversed ?chain ?w1)) = [?g]" by code_simp
  note T = blockchain_states_come_from_finalized_files
  from T [THEN conjunct1, rule_format, OF p]
  have fin: "po_is_finalized (blockchain_states_storage ?chain) (disk ?w1) ?name = Inr True"
    unfolding nm .
  from T [THEN conjunct2, THEN conjunct1, rule_format, OF miss nf] obtain e where
    "load_blockchain_states' ?chain ?w1 ''1111111111-arf.msgpack'' = (Inl e, ?w1)" ..
  have ae: "fst (load_blockchain_states' ?chain ?w1 ''1111111111-arf.msgpack'')
      = Inl AssertionError"
    by code_simp
  from T [THEN conjunct2, THEN conjunct2, THEN conjunct1, rule_format, OF inv ld]
  have ff: "from_finalized_file ?chain (disk ?w1) ?name ?g" by (rule conjunct1)
  have yp: "yield_blockchain_states ?chain ?w1 =
      (fst (yield_blockchain_states ?chain ?w1), fst (snd (yield_blockchain_states ?chain ?w1)),
       snd (snd (yield_blockchain_states ?chain ?w1)))"
    by simp
  have yrp: "yield_blockchain_states_reversed ?chain ?w1 =
      (fst (yield_blockchain_states_reversed ?chain ?w1),
       fst (snd (yield_blockchain_states_reversed ?chain ?w1)),
       snd (snd (yield_blockchain_states_reversed ?chain ?w1)))"
    by simp
  from T [THEN conjunct2, THEN conjunct2, THEN conjunct2, THEN conjunct1, rule_format, OF inv yp]
  have d1: "disk (snd (snd (yield_blockchain_states ?chain ?w1))) = disk ?w1" by (rule conjunct1)
  from T [THEN conjunct2, THEN conjunct2, THEN conjunct2, THEN conjunct2, rule_format, OF inv yrp]
  have d2: "disk (snd (snd (yield_blockchain_states_reversed ?chain ?w1))) = disk ?w1"
    by (rule conjunct1)
  from p fin ae inv y ff yr d1 d2 show ?thesis by (intro conjI)
qed

section \<open>Looking a block up by its number\<close>

lemma get_block_by_number_empty_cache_raises:
  "entries (blocks_cache w) = [] \<Longrightarrow> get_block_by_number self w number = (Inl AssertionError, w)"
  by (simp add: get_block_by_number_def lru_truth_def)

lemma get_block_by_number_cached:
  "map_of (entries (blocks_cache w)) number = Some block \<Longrightarrow>
   fst (get_block_by_number self w number) = Inr (Some block)"
  by (auto simp: get_block_by_number_def lru_truth_def lru_get_def)

text \<open>
  Claim C8, at a store that holds the blocks 0 to 3 in one chunk file and whose cache of
  blocks is empty, as it is in a process that has just started. The generator
  \<^verbatim>\<open>yield_blocks_from(999)\<close> ends without a block and \<^verbatim>\<open>yield_blocks_from(1)\<close> yields
  the blocks 1, 2 and 3, so that the look-up of 999 should return \<^verbatim>\<open>None\<close> and the
  look-up of 1 the block 1; but \<^verbatim>\<open>assert self.blocks_cache\<close> fails on the empty
  cache and both calls raise \<^verbatim>\<open>AssertionError\<close>. With one block in the cache the
  look-up of 999 returns \<^verbatim>\<open>None\<close> and the look-up of 1 returns the block 1.
\<close>

theorem get_block_by_number_fails_on_empty_cache:
  "entries (blocks_cache (sample_world four_blocks [])) = [] \<and>
   map (\<lambda>y. block_number (message (fst y)))
     (fst (yield_blocks_from (sample_blockchain 100) (sample_world four_blocks []) 999)) = [] \<and>
   fst (snd (yield_blocks_from (sample_blockchain 100) (sample_world four_blocks []) 999)) = None \<and>
   fst (get_block_by_number (sample_blockchain 100) (sample_world four_blocks []) 999)
     = Inl AssertionError \<and>
   map (\<lambda>y. block_number (message (fst y)))
     (fst (yield_blocks_from (sample_blockchain 100) (sample_world four_blocks []) 1)) = [1, 2, 3] \<and>
   fst (get_block_by_number (sample_blockchain 100) (sample_world four_blocks []) 1)
     = Inl AssertionError \<and>
   fst (get_block_by_number (sample_blockchain 100)
          (sample_world four_blocks [(0, sample_block 0)]) 999) = Inr None \<and>
   fst (get_block_by_number (sample_blockchain 100)
          (sample_world four_blocks [(0, sample_block 0)]) 1) = Inr (Some (sample_block 1))"
proof (intro conjI)
  show "entries (blocks_cache (sample_world four_blocks [])) = []" by code_simp
  show "map (\<lambda>y. block_number (message (fst y)))
     (fst (yield_blocks_from (sample_blockchain 100) (sample_world four_blocks []) 999)) = []"
    by code_simp
  show "fst (snd (yield_blocks_from (sample_blockchain 100) (sample_world four_blocks []) 999)) = None"
    by code_simp
  show "fst (get_block_by_number (sample_blockchain 100) (sample_world four_blocks []) 999)
     = Inl AssertionError"
    by code_simp
  show "map (\<lambda>y. block_number (message (fst y)))
     (fst (yield_blocks_from (sample_blockchain 100) (sample_world four_blocks []) 1)) = [1, 2, 3]"
    by code_simp
  show "fst (get_block_by_number (sample_blockchain 100) (sample_world four_blocks []) 1)
     = Inl AssertionError"
    by code_simp
  show "fst (get_block_by_number (sample_blockchain 100)
          (sample_world four_blocks [(0, sample_block 0)]) 999) = Inr None"
    by code_simp
  show "fst (get_block_by_number (sample_blockchain 100)
          (sample_world four_blocks [(0, sample_block 0)]) 1) = Inr (Some (sample_block 1))"
    by code_simp
qed

section \<open>Properties of the iteration over blocks\<close>

lemma upto_progression: "[s..e] = map (\<lambda>i. s + int i) [0..<nat (e - s + 1)]"
proof (induction "nat (e - s + 1)" arbitrary: s)
  case 0
  then show ?case by simp
next
  case (Suc n)
  then have lt: "s \<le> e" and n: "n = nat (e - (s + 1) + 1)" by linarith+
  from Suc(1) [OF n] have "[s + 1..e] = map (\<lambda>i. s + 1 + int i) [0..<n]"
    using n by simp
  moreover from lt have "[s..e] = s # [s + 1..e]" by (simp add: upto_rec1)
  moreover have "map (\<lambda>i. s + int i) [0..<Suc n] = s # map (\<lambda>i. s + 1 + int i) [0..<n]"
    by (simp add: upt_conv_Cons map_Suc_upt [symmetric] del: upt_Suc)
  ultimately show ?case using Suc(2) by simp
qed

lemma rev_upto_progression: "rev [s..e] = map (\<lambda>i. e - int i) [0..<nat (e - s + 1)]"
proof (induction "nat (e - s + 1)" arbitrary: e)
  case 0
  then show ?case by simp
next
  case (Suc n)
  then have lt: "s \<le> e" and n: "n = nat (e - 1 - s + 1)" by linarith+
  from Suc(1) [OF n] have "rev [s..e - 1] = map (\<lambda>i. e - 1 - int i) [0..<n]"
    using n by simp
  moreover from lt have "[s..e] = [s..e - 1] @ [e]" by (simp add: upto_rec2)
  moreover have "map (\<lambda>i. e - int i) [0..<Suc n] = e # map (\<lambda>i. e - 1 - int i) [0..<n]"
    by (simp add: upt_conv_Cons map_Suc_upt [symmetric] del: upt_Suc)
  ultimately show ?case using Suc(2) by simp
qed


lemma lru_get_consistent:
  assumes "cache_consistent cache chain" and "lru_get cache k = (r, cache')"
  shows "cache_consistent cache' chain \<and> (r = None \<or> r = Some (chain k))"
proof (cases "map_of (entries cache) k")
  case None
  with assms show ?thesis by (simp add: lru_get_def)
next
  case (Some v)
  then have "(k, v) \<in> set (entries cache)" by (rule map_of_SomeD)
  with assms(1) have "v = chain k" by (auto simp: cache_consistent_def list_all_iff)
  with assms Some show ?thesis
    by (auto simp: lru_get_def cache_consistent_def list_all_iff)
qed

lemma lru_set_consistent:
  assumes "cache_consistent cache chain"
  shows "\<exists>cache'. lru_set cache k (chain k) = Inr cache' \<and> cache_consistent cache' chain"
  using assms
  by (auto simp: lru_set_def cache_consistent_def list_all_iff Let_def dest: in_set_dropD)

lemma same_world:
  "cache_consistent (blocks_cache w) chain \<Longrightarrow>
   \<exists>c. w = w\<lparr>blocks_cache := c\<rparr> \<and> cache_consistent c chain"
  by (rule exI [of _ "blocks_cache w"]) simp

lemma cached_blocks_consistent:
  assumes "cache_consistent (blocks_cache w) chain"
    and "cached_blocks w ns = (ys, w')"
  shows "length ys \<le> length ns \<and> map fst ys = map chain (take (length ys) ns) \<and>
         (\<exists>c. w' = w\<lparr>blocks_cache := c\<rparr> \<and> cache_consistent c chain)"
  using assms
proof (induction ns arbitrary: w ys w')
  case Nil
  then have "ys = []" "w' = w" by simp_all
  with same_world [OF Nil(1)] show ?case by simp
next
  case (Cons n ns)
  obtain r c1 where g: "lru_get (blocks_cache w) n = (r, c1)"
    by (cases "lru_get (blocks_cache w) n")
  from lru_get_consistent [OF Cons.prems(1) g]
  have c1: "cache_consistent c1 chain" and r: "r = None \<or> r = Some (chain n)" by simp_all
  show ?case
  proof (cases r)
    case None
    with Cons.prems(2) g have "ys = []" "w' = w\<lparr>blocks_cache := c1\<rparr>" by simp_all
    with c1 show ?thesis by auto
  next
    case (Some b)
    with r have b: "b = chain n" by simp
    let ?w1 = "w\<lparr>blocks_cache := c1\<rparr>"
    obtain ys1 w2 where rest: "cached_blocks ?w1 ns = (ys1, w2)"
      by (cases "cached_blocks ?w1 ns")
    from Cons.prems(2) g Some rest have eq: "ys = (b, ?w1) # ys1" "w' = w2" by simp_all
    from c1 have "cache_consistent (blocks_cache ?w1) chain" by simp
    from Cons.IH [OF this rest] obtain c where
      ih: "length ys1 \<le> length ns" "map fst ys1 = map chain (take (length ys1) ns)"
        "w2 = ?w1\<lparr>blocks_cache := c\<rparr>" "cache_consistent c chain"
      by blast
    from ih(3) have "w2 = w\<lparr>blocks_cache := c\<rparr>" by simp
    with eq ih b show ?thesis by auto
  qed
qed

lemma file_blocks_consistent:
  assumes "numbered chain" and "cache_consistent (blocks_cache w) chain"
  shows "\<exists>ys c. file_blocks w d st (map chain ks) = (ys, None, w\<lparr>blocks_cache := c\<rparr>) \<and>
           cache_consistent c chain \<and>
           map fst ys = map chain (filter (\<lambda>k. \<not> skipped d st k) ks)"
  using assms(2)
proof (induction ks arbitrary: w)
  case Nil
  from same_world [OF Nil] show ?case by simp
next
  case (Cons k ks)
  from assms(1) have num: "block_number (message (chain k)) = k" by (simp add: numbered_def)
  show ?case
  proof (cases "skipped d st k")
    case True
    from Cons.IH [OF Cons.prems] obtain ys c where
      "file_blocks w d st (map chain ks) = (ys, None, w\<lparr>blocks_cache := c\<rparr>)"
      "cache_consistent c chain" "map fst ys = map chain (filter (\<lambda>k. \<not> skipped d st k) ks)"
      by blast
    with True num show ?thesis by (auto simp: skipped_def split: option.splits)
  next
    case False
    from lru_set_consistent [OF Cons.prems, of k] obtain c1 where
      c1: "lru_set (blocks_cache w) k (chain k) = Inr c1" "cache_consistent c1 chain" by blast
    let ?w1 = "w\<lparr>blocks_cache := c1\<rparr>"
    from c1(2) have "cache_consistent (blocks_cache ?w1) chain" by simp
    from Cons.IH [OF this] obtain ys c where
      ih: "file_blocks ?w1 d st (map chain ks) = (ys, None, ?w1\<lparr>blocks_cache := c\<rparr>)"
      "cache_consistent c chain" "map fst ys = map chain (filter (\<lambda>k. \<not> skipped d st k) ks)"
      by blast
    have "file_blocks w d st (map chain (k # ks)) = ((chain k, ?w1) # ys, None, w\<lparr>blocks_cache := c\<rparr>)"
      using False num c1(1) ih(1) by (auto simp: skipped_def Let_def split: option.splits)
    with ih(2,3) False show ?thesis by auto
  qed
qed

lemma expect_cached_progression:
  assumes "numbered chain"
    and "map fst ys = map (\<lambda>i. chain (n0 + d * int i)) [0..<length ys]"
  shows "expect_cached d n0 ys w_end = (ys, None, n0 + d * int (length ys), w_end)"
  using assms(2)
proof (induction ys arbitrary: n0)
  case Nil
  then show ?case by simp
next
  case (Cons y ys)
  obtain b wb where y: "y = (b, wb)" by (cases y)
  from Cons.prems have hd: "b = chain n0"
    and tl: "map fst ys = map (\<lambda>i. chain (n0 + d * int (Suc i))) [0..<length ys]"
    by (simp_all add: y upt_conv_Cons map_Suc_upt [symmetric] del: upt_Suc)
  from tl have "map fst ys = map (\<lambda>i. chain (n0 + d + d * int i)) [0..<length ys]"
    by (simp add: algebra_simps)
  from Cons.IH [OF this] hd assms(1) show ?case
    by (simp add: y numbered_def algebra_simps)
qed


lemma filter_upt_ge: "m \<le> L \<Longrightarrow> filter (\<lambda>i. \<not> i < m) [0..<L] = [m..<L]"
proof (induction L)
  case 0
  then show ?case by simp
next
  case (Suc L)
  show ?case
  proof (cases "m = Suc L")
    case True
    then have "filter (\<lambda>i. \<not> i < m) [0..<Suc L] = []" by (auto simp: filter_empty_conv)
    with True show ?thesis by simp
  next
    case False
    with Suc show ?thesis by simp
  qed
qed

lemma yield_file_cached:
  assumes num: "numbered chain"
    and cc: "cache_consistent (blocks_cache w) chain"
    and d: "d = 1 \<or> d = - 1"
    and meta: "get_block_chunk_file_path_meta fp = Inr (Some m)"
    and ld: "po_load (block_storage self) (disk w) fp = Inr binary_data"
    and un: "unpack_blocks self binary_data = map chain [start m..end_no m]"
  shows "\<exists>ys c. yield_blocks_from_file_cached' self w fp d None = (ys, None, w\<lparr>blocks_cache := c\<rparr>) \<and>
           cache_consistent c chain \<and>
           map fst ys = (if d = 1 then map chain [start m..end_no m]
                         else rev (map chain [start m..end_no m]))"
proof -
  let ?s = "start m" and ?e = "end_no m"
  define L where "L = nat (?e - ?s + 1)"
  define n0 where "n0 = (if d = 1 then ?s else ?e)"
  define f where "f = (\<lambda>i. n0 + d * int i)"
  define iter1 where "iter1 = map f [0..<L]"
  have iter: "(if d = - 1 then rev [?s..?e] else [?s..?e]) = iter1"
    using d upto_progression [of ?s ?e] rev_upto_progression [of ?s ?e]
    by (auto simp: iter1_def f_def n0_def L_def)
  obtain cached w1 where cb: "cached_blocks w iter1 = (cached, w1)"
    by (cases "cached_blocks w iter1")
  from cached_blocks_consistent [OF cc cb] obtain c1 where
    len: "length cached \<le> L" and
    items: "map fst cached = map chain (take (length cached) iter1)" and
    w1: "w1 = w\<lparr>blocks_cache := c1\<rparr>" and c1: "cache_consistent c1 chain"
    by (auto simp: iter1_def)
  define m' where "m' = length cached"
  from items len have items': "map fst cached = map (\<lambda>i. chain (n0 + d * int i)) [0..<m']"
    by (simp add: iter1_def take_map m'_def f_def min_def)
  from expect_cached_progression [OF num items' [unfolded m'_def]]
  have ex: "expect_cached d n0 cached w1 = (cached, None, n0 + d * int m', w1)"
    by (simp add: m'_def)
  define n1 where "n1 = n0 + d * int m'"
  have cond: "(?s \<le> n1 \<and> n1 \<le> ?e) \<longleftrightarrow> m' < L"
    using d len by (auto simp: n1_def n0_def L_def m'_def)
  have cache_phase: "yield_blocks_from_cache' w (if d = 1 then ?s else ?s) (if d = 1 then ?e else ?e) d
      = (cached, None, w1)"
    using d cb iter by (auto simp: yield_blocks_from_cache'_def Let_def)
  have total: "map chain iter1 = (if d = 1 then map chain [?s..?e] else rev (map chain [?s..?e]))"
    using d iter by (auto simp: rev_map)
  have unp: "(if d = - 1 then rev (unpack_blocks self binary_data) else unpack_blocks self binary_data)
      = map chain iter1"
    using d iter un by (auto simp: rev_map)
  show ?thesis
  proof (cases "m' < L")
    case True
    from c1 w1 have "cache_consistent (blocks_cache w1) chain" by simp
    from file_blocks_consistent [OF num this, of d "Some n1" iter1] obtain ys2 c2 where
      fb: "file_blocks w1 d (Some n1) (map chain iter1) = (ys2, None, w1\<lparr>blocks_cache := c2\<rparr>)"
      and c2: "cache_consistent c2 chain"
      and ys2: "map fst ys2 = map chain (filter (\<lambda>k. \<not> skipped d (Some n1) k) iter1)"
      by blast
    have sk: "skipped d (Some n1) (f i) \<longleftrightarrow> i < m'" for i
      using d by (auto simp: skipped_def n1_def f_def)
    have "filter (\<lambda>k. \<not> skipped d (Some n1) k) iter1 = map f [m'..<L]"
      using True by (simp add: iter1_def filter_map comp_def sk filter_upt_ge)
    with ys2 have ys2': "map fst ys2 = map chain (map f [m'..<L])" by simp
    have "map fst (cached @ ys2) = map chain (map f ([0..<m'] @ [m'..<L]))"
      using items' ys2' by (simp add: f_def)
    also have "[0..<m'] @ [m'..<L] = [0..<L]"
      using True by (metis le_add_diff_inverse less_imp_le_nat upt_add_eq_append zero_le)
    finally have all: "map fst (cached @ ys2) = map chain iter1" by (simp add: iter1_def)
    have file_phase: "yield_blocks_from_file' self w1 fp d (Some n1) = (ys2, None, w\<lparr>blocks_cache := c2\<rparr>)"
      using d ld w1 unp fb by (auto simp: yield_blocks_from_file'_def Let_def)
    have "yield_blocks_from_file_cached' self w fp d None = (cached @ ys2, None, w\<lparr>blocks_cache := c2\<rparr>)"
      using d meta cache_phase ex cond True file_phase
      by (auto simp: yield_blocks_from_file_cached'_def Let_def then_yield_from_def n0_def n1_def)
    with c2 all total show ?thesis by auto
  next
    case False
    with len have "m' = L" by (simp add: m'_def)
    with items have all: "map fst cached = map chain iter1" by (simp add: m'_def iter1_def)
    have "yield_blocks_from_file_cached' self w fp d None = (cached, None, w\<lparr>blocks_cache := c1\<rparr>)"
      using d meta cache_phase ex cond False w1
      by (auto simp: yield_blocks_from_file_cached'_def Let_def then_yield_from_def n0_def n1_def)
    with c1 all total show ?thesis by auto
  qed
qed


lemma chunk_file_consistent_cases:
  assumes "chunk_file_consistent self fs chain fp"
  shows "get_block_chunk_file_path_meta fp = Inr None \<or>
         (\<exists>m binary_data. get_block_chunk_file_path_meta fp = Inr (Some m) \<and>
            po_load (block_storage self) fs fp = Inr binary_data \<and>
            unpack_blocks self binary_data = map chain [start m..end_no m])"
proof (cases "get_block_chunk_file_path_meta fp")
  case (Inl e)
  with assms show ?thesis by (simp add: chunk_file_consistent_def)
next
  case (Inr mo)
  show ?thesis
  proof (cases mo)
    case None
    with Inr show ?thesis by simp
  next
    case (Some m)
    with Inr assms show ?thesis
      by (cases "po_load (block_storage self) fs fp") (simp_all add: chunk_file_consistent_def)
  qed
qed

lemma yield_blocks_of_files_consistent:
  assumes num: "numbered chain" and d: "d = 1 \<or> d = - 1"
    and cc: "cache_consistent (blocks_cache w) chain"
    and files: "list_all (chunk_file_consistent self (disk w) chain) paths"
  shows "\<exists>ys c. yield_blocks_of_files self w d paths = (ys, None, w\<lparr>blocks_cache := c\<rparr>) \<and>
           cache_consistent c chain \<and>
           map fst ys = concat (map (\<lambda>fp. if d = 1 then chunk_blocks chain fp
                                            else rev (chunk_blocks chain fp)) paths)"
  using cc files
proof (induction paths arbitrary: w)
  case Nil
  from same_world [OF Nil(1)] show ?case by simp
next
  case (Cons fp paths)
  from Cons.prems(2) have here: "chunk_file_consistent self (disk w) chain fp"
    and rest: "list_all (chunk_file_consistent self (disk w) chain) paths" by simp_all
  have "\<exists>ys1 c1. yield_blocks_from_file_cached' self w fp d None = (ys1, None, w\<lparr>blocks_cache := c1\<rparr>) \<and>
          cache_consistent c1 chain \<and>
          map fst ys1 = (if d = 1 then chunk_blocks chain fp else rev (chunk_blocks chain fp))"
  proof -
    from chunk_file_consistent_cases [OF here]
    consider "get_block_chunk_file_path_meta fp = Inr None"
      | m binary_data where "get_block_chunk_file_path_meta fp = Inr (Some m)"
          "po_load (block_storage self) (disk w) fp = Inr binary_data"
          "unpack_blocks self binary_data = map chain [start m..end_no m]"
      by blast
    then show ?thesis
    proof cases
      case 1
      with d have "yield_blocks_from_file_cached' self w fp d None = ([], None, w)"
        by (auto simp: yield_blocks_from_file_cached'_def)
      with same_world [OF Cons.prems(1)] 1 show ?thesis
        by (auto simp: chunk_blocks_def)
    next
      case 2
      from yield_file_cached [OF num Cons.prems(1) d 2] 2(1) show ?thesis
        by (auto simp: chunk_blocks_def)
    qed
  qed
  then obtain ys1 c1 where
    f1: "yield_blocks_from_file_cached' self w fp d None = (ys1, None, w\<lparr>blocks_cache := c1\<rparr>)"
    and c1: "cache_consistent c1 chain"
    and y1: "map fst ys1 = (if d = 1 then chunk_blocks chain fp else rev (chunk_blocks chain fp))"
    by blast
  let ?w1 = "w\<lparr>blocks_cache := c1\<rparr>"
  from c1 have cc1: "cache_consistent (blocks_cache ?w1) chain" by simp
  from rest have rest1: "list_all (chunk_file_consistent self (disk ?w1) chain) paths" by simp
  from Cons.IH [OF cc1 rest1] obtain ys2 c2 where
    f2: "yield_blocks_of_files self ?w1 d paths = (ys2, None, ?w1\<lparr>blocks_cache := c2\<rparr>)"
    and c2: "cache_consistent c2 chain"
    and y2: "map fst ys2 = concat (map (\<lambda>fp. if d = 1 then chunk_blocks chain fp
                                            else rev (chunk_blocks chain fp)) paths)"
    by blast
  have "yield_blocks_of_files self w d (fp # paths) = (ys1 @ ys2, None, w\<lparr>blocks_cache := c2\<rparr>)"
    using f1 f2 by (simp add: then_yield_from_def)
  with c2 y1 y2 show ?case by auto
qed

lemma list_directory_reversed:
  "po_list_directory self fs (Some (- 1)) = rev (po_list_directory self fs (Some 1))"
  by (simp add: po_list_directory_def Let_def)

lemma yield_blocks_consistent:
  assumes "store_consistent self w chain"
  shows "\<exists>ys c. yield_blocks self w = (ys, None, w\<lparr>blocks_cache := c\<rparr>) \<and>
           cache_consistent c chain \<and>
           map fst ys = concat (map (chunk_blocks chain)
                                  (po_list_directory (block_storage self) (disk w) (Some 1)))"
proof -
  from assms have num: "numbered chain" and cc: "cache_consistent (blocks_cache w) chain"
    and files: "list_all (chunk_file_consistent self (disk w) chain)
        (po_list_directory (block_storage self) (disk w) (Some 1))"
    by (simp_all add: store_consistent_def)
  from yield_blocks_of_files_consistent [OF num _ cc files, of 1]
  show ?thesis by (simp add: yield_blocks_def yield_blocks'_def list_block_directory'_def)
qed

lemma yield_blocks_reversed_consistent:
  assumes "store_consistent self w chain"
  shows "\<exists>ys c. yield_blocks_reversed self w = (ys, None, w\<lparr>blocks_cache := c\<rparr>) \<and>
           cache_consistent c chain \<and>
           map fst ys = rev (concat (map (chunk_blocks chain)
                                  (po_list_directory (block_storage self) (disk w) (Some 1))))"
proof -
  let ?L = "po_list_directory (block_storage self) (disk w) (Some 1)"
  from assms have num: "numbered chain" and cc: "cache_consistent (blocks_cache w) chain"
    and files: "list_all (chunk_file_consistent self (disk w) chain) ?L"
    by (simp_all add: store_consistent_def)
  from files have files': "list_all (chunk_file_consistent self (disk w) chain) (rev ?L)"
    by (simp add: list_all_iff)
  from yield_blocks_of_files_consistent [OF num _ cc files', of "- 1"] obtain ys c where
    r: "yield_blocks_of_files self w (- 1) (rev ?L) = (ys, None, w\<lparr>blocks_cache := c\<rparr>)"
    "cache_consistent c chain"
    "map fst ys = concat (map (\<lambda>fp. rev (chunk_blocks chain fp)) (rev ?L))"
    by auto
  have "concat (map (\<lambda>fp. rev (chunk_blocks chain fp)) (rev ?L)) = rev (concat (map (chunk_blocks chain) ?L))"
    by (simp add: rev_concat rev_map comp_def)
  with r show ?thesis
    by (auto simp: yield_blocks_reversed_def yield_blocks'_def list_block_directory'_def
          list_directory_reversed)
qed

lemma store_consistent_cache:
  "store_consistent self w chain \<Longrightarrow> cache_consistent c chain \<Longrightarrow>
   store_consistent self (w\<lparr>blocks_cache := c\<rparr>) chain"
  by (simp add: store_consistent_def)

text \<open>
  A store that agrees with a chain of blocks: when every listed chunk file holds the
  blocks of the range in its name and every entry of the cache of blocks is the block of
  the chain under its key, \<^verbatim>\<open>yield_blocks\<close> and \<^verbatim>\<open>yield_blocks_reversed\<close> end without an
  exception and the sequence of the first is the reverse of the sequence of the second,
  whether the second runs in the same state or in the state the first has left, which
  agrees with the chain again.
\<close>

lemma consistent_store_yields_reverse:
  assumes "store_consistent self w chain"
  shows "fst (snd (yield_blocks self w)) = None \<and>
         fst (snd (yield_blocks_reversed self w)) = None \<and>
         map fst (fst (yield_blocks self w)) = rev (map fst (fst (yield_blocks_reversed self w))) \<and>
         store_consistent self (snd (snd (yield_blocks self w))) chain \<and>
         map fst (fst (yield_blocks self w)) =
           rev (map fst (fst (yield_blocks_reversed self (snd (snd (yield_blocks self w))))))"
proof -
  from yield_blocks_consistent [OF assms] obtain ys c where
    f: "yield_blocks self w = (ys, None, w\<lparr>blocks_cache := c\<rparr>)" "cache_consistent c chain"
    "map fst ys = concat (map (chunk_blocks chain)
                                  (po_list_directory (block_storage self) (disk w) (Some 1)))"
    by blast
  from yield_blocks_reversed_consistent [OF assms] obtain zs c' where
    r: "yield_blocks_reversed self w = (zs, None, w\<lparr>blocks_cache := c'\<rparr>)"
    "map fst zs = rev (concat (map (chunk_blocks chain)
                                  (po_list_directory (block_storage self) (disk w) (Some 1))))"
    by blast
  let ?w1 = "w\<lparr>blocks_cache := c\<rparr>"
  from store_consistent_cache [OF assms f(2)] have s1: "store_consistent self ?w1 chain" .
  from yield_blocks_reversed_consistent [OF s1] obtain zs1 c1 where
    r1: "yield_blocks_reversed self ?w1 = (zs1, None, ?w1\<lparr>blocks_cache := c1\<rparr>)"
    "map fst zs1 = rev (concat (map (chunk_blocks chain)
                                  (po_list_directory (block_storage self) (disk ?w1) (Some 1))))"
    by blast
  from f r r1 s1 show ?thesis by simp
qed

section \<open>The states that adding blocks reaches\<close>

subsection \<open>The names of the chunk files are parsed back\<close>

lemma str_nat_digits: "\<forall>c\<in>set (str_nat n). is_digit c"
proof (induction n rule: str_nat.induct)
  case (1 n)
  have dc: "is_digit (digit_char d)" if "d < 10" for d
  proof -
    from that have "d = 0 \<or> d = 1 \<or> d = 2 \<or> d = 3 \<or> d = 4 \<or> d = 5 \<or> d = 6 \<or> d = 7 \<or> d = 8 \<or> d = 9"
      by arith
    then show ?thesis by (elim disjE) (simp_all add: digit_char_def is_digit_def)
  qed
  show ?case
  proof (cases "n < 10")
    case True
    then show ?thesis by (simp add: str_nat.simps [of n] dc)
  next
    case False
    with 1 show ?thesis by (simp add: str_nat.simps [of n] dc)
  qed
qed

lemma is_digit_0: "is_digit CHR ''0''"
  by (simp add: is_digit_def)

lemma zfill_str_int_digits:
  "0 \<le> a \<Longrightarrow> \<forall>c\<in>set (zfill (str_int a) w). is_digit c"
  using str_nat_digits [of "nat a"]
  by (simp add: str_int_def zfill_str_nat is_digit_0 ball_Un)

lemma zfill_str_int_not_Nil: "0 \<le> a \<Longrightarrow> zfill (str_int a) w \<noteq> []"
  by (simp add: str_int_def zfill_str_nat str_nat_not_Nil)

lemma nat_of_digits_zfill: "0 \<le> a \<Longrightarrow> int (nat_of_digits (zfill (str_int a) w) 0) = a"
  by (simp add: str_int_def zfill_str_nat nat_of_digits_padded)

lemma takeWhile_digits:
  "\<forall>c\<in>set ds. is_digit c \<Longrightarrow> \<not> is_digit x \<Longrightarrow>
   takeWhile is_digit (ds @ x # rest) = ds \<and> dropWhile is_digit (ds @ x # rest) = x # rest"
  by (simp add: takeWhile_append2 dropWhile_append2)

lemma basename_no_slash: "CHR ''/'' \<notin> set s \<Longrightarrow> basename s = s"
proof -
  assume a: "CHR ''/'' \<notin> set s"
  have t: "takeWhile (\<lambda>c. c \<noteq> CHR ''/'') (rev s) = rev s"
    using a by (auto simp: takeWhile_eq_all_conv)
  show ?thesis unfolding basename_def t by simp
qed

lemma digits_no_slash: "\<forall>c\<in>set ds. is_digit c \<Longrightarrow> CHR ''/'' \<notin> set ds"
  by (auto simp: is_digit_def)

lemma chunk_filename_no_slash:
  assumes "0 \<le> a" "0 \<le> e"
  shows "CHR ''/'' \<notin> set (make_block_chunk_filename a e)"
  using digits_no_slash [OF zfill_str_int_digits [OF assms(1), of ORDER_OF_BLOCK]]
    digits_no_slash [OF zfill_str_int_digits [OF assms(2), of ORDER_OF_BLOCK]]
  by (simp add: make_block_chunk_filename_def)

lemma is_digit_not_null: "is_digit c \<Longrightarrow> c \<noteq> CHR 0x00"
  by (auto simp: is_digit_def)

lemma digits_no_null: "\<forall>c\<in>set ds. is_digit c \<Longrightarrow> CHR 0x00 \<notin> set ds"
  using is_digit_not_null by blast

lemma chunk_filename_no_null:
  assumes "0 \<le> a" "0 \<le> e"
  shows "CHR 0x00 \<notin> set (make_block_chunk_filename a e)"
  using digits_no_null [OF zfill_str_int_digits [OF assms(1), of ORDER_OF_BLOCK]]
    digits_no_null [OF zfill_str_int_digits [OF assms(2), of ORDER_OF_BLOCK]]
  by (simp add: make_block_chunk_filename_def)

lemma match_chunk_filename:
  assumes "0 \<le> a" "0 \<le> e"
  shows "match_block_chunk_filename (make_block_chunk_filename a e) =
           Some (zfill (str_int a) ORDER_OF_BLOCK, zfill (str_int e) ORDER_OF_BLOCK, None)"
proof -
  let ?za = "zfill (str_int a) ORDER_OF_BLOCK" and ?ze = "zfill (str_int e) ORDER_OF_BLOCK"
  have nd: "\<not> is_digit CHR ''-''" by (simp add: is_digit_def)
  have n: "make_block_chunk_filename a e = ?za @ CHR ''-'' # (?ze @ CHR ''-'' # ''block-chunk.msgpack'')"
    by (simp add: make_block_chunk_filename_def)
  from takeWhile_digits [OF zfill_str_int_digits [OF assms(1)] nd]
  have t1: "takeWhile is_digit (?za @ CHR ''-'' # (?ze @ CHR ''-'' # ''block-chunk.msgpack'')) = ?za"
    "dropWhile is_digit (?za @ CHR ''-'' # (?ze @ CHR ''-'' # ''block-chunk.msgpack''))
       = CHR ''-'' # (?ze @ CHR ''-'' # ''block-chunk.msgpack'')"
    by simp_all
  from takeWhile_digits [OF zfill_str_int_digits [OF assms(2)] nd]
  have t2: "takeWhile is_digit (?ze @ CHR ''-'' # ''block-chunk.msgpack'') = ?ze"
    "dropWhile is_digit (?ze @ CHR ''-'' # ''block-chunk.msgpack'') = ''-block-chunk.msgpack''"
    by simp_all
  have sp: "strip_prefix ''-block-chunk'' ''-block-chunk.msgpack'' = Some ''.msgpack''"
    "strip_prefix ''msgpack'' ''msgpack'' = Some []"
    by (simp_all add: strip_prefix_def)
  have t2': "takeWhile is_digit (?ze @ ''-block-chunk.msgpack'') = ?ze"
    "dropWhile is_digit (?ze @ ''-block-chunk.msgpack'') = ''-block-chunk.msgpack''"
    using t2 by simp_all
  have "match_block_chunk_filename (?za @ CHR ''-'' # (?ze @ CHR ''-'' # ''block-chunk.msgpack''))
      = Some (?za, ?ze, None)"
    unfolding match_block_chunk_filename_def Let_def t1
    using zfill_str_int_not_Nil [OF assms(1), of ORDER_OF_BLOCK]
      zfill_str_int_not_Nil [OF assms(2), of ORDER_OF_BLOCK] sp
    by (simp add: match_compression_suffix_def t2')
  then show ?thesis unfolding n .
qed

lemma chunk_filename_meta:
  assumes "0 \<le> a" "a \<le> e"
  shows "get_block_chunk_file_path_meta (make_block_chunk_filename a e) =
           Inr (Some \<lparr>start = a, end_no = e, compression = None\<rparr>)"
proof -
  from assms have e: "0 \<le> e" by simp
  have b: "basename (make_block_chunk_filename a e) = make_block_chunk_filename a e"
    by (rule basename_no_slash [OF chunk_filename_no_slash [OF assms(1) e]])
  from nat_of_digits_zfill [OF assms(1), of ORDER_OF_BLOCK] nat_of_digits_zfill [OF e, of ORDER_OF_BLOCK]
  have v: "int (nat_of_digits (zfill (str_int a) ORDER_OF_BLOCK) 0) = a"
    "int (nat_of_digits (zfill (str_int e) ORDER_OF_BLOCK) 0) = e" by simp_all
  with assms(2) have le: "nat_of_digits (zfill (str_int a) ORDER_OF_BLOCK) 0
      \<le> nat_of_digits (zfill (str_int e) ORDER_OF_BLOCK) 0" by linarith
  show ?thesis
    unfolding get_block_chunk_file_path_meta_def get_block_chunk_filename_meta_def b
      match_chunk_filename [OF assms(1) e] Let_def
    using le by (simp add: v)
qed

lemma chunk_filename_inj:
  assumes "0 \<le> a" "a \<le> e" "0 \<le> a'" "a' \<le> e'"
    and "make_block_chunk_filename a e = make_block_chunk_filename a' e'"
  shows "a = a' \<and> e = e'"
proof -
  from assms(5) have "get_block_chunk_file_path_meta (make_block_chunk_filename a e)
      = get_block_chunk_file_path_meta (make_block_chunk_filename a' e')"
    by simp
  then show ?thesis
    unfolding chunk_filename_meta [OF assms(1,2)] chunk_filename_meta [OF assms(3,4)] by simp
qed

subsection \<open>The paths of the chunk files\<close>

lemma chunk_filename_shape:
  "\<exists>x. make_block_chunk_filename a e = x @ ''-block-chunk.msgpack''"
  by (simp add: make_block_chunk_filename_def)

lemma sound_paths:
  assumes "block_store_sound self blocks" "0 \<le> a" "a \<le> e"
  shows "get_absolute_path' (storage (block_storage self))
           (make_optimized_file_path (block_storage self) (make_block_chunk_filename a e))
         = Inr (chunk_path self a e)"
    and "logical_file_path (block_storage self)
           (make_optimized_file_path (block_storage self) (make_block_chunk_filename a e))
         = make_block_chunk_filename a e"
    and "suffix (make_block_chunk_filename a e)
           (make_optimized_file_path (block_storage self) (make_block_chunk_filename a e))"
  using assms unfolding block_store_sound_def chunk_path_def Let_def by blast+

lemma chunk_path_inj:
  assumes "block_store_sound self blocks" "0 \<le> a" "a \<le> e" "0 \<le> a'" "a' \<le> e'"
    and "chunk_path self a e = chunk_path self a' e'"
  shows "a = a' \<and> e = e'"
proof -
  let ?f = "make_optimized_file_path (block_storage self)"
  from assms(6) have "?f (make_block_chunk_filename a e) = ?f (make_block_chunk_filename a' e')"
    by (simp add: chunk_path_def)
  then have "logical_file_path (block_storage self) (?f (make_block_chunk_filename a e))
      = logical_file_path (block_storage self) (?f (make_block_chunk_filename a' e'))"
    by simp
  then have "make_block_chunk_filename a e = make_block_chunk_filename a' e'"
    unfolding sound_paths(2) [OF assms(1,2,3)] sound_paths(2) [OF assms(1,4,5)] .
  from chunk_filename_inj [OF assms(2,3,4,5) this] show ?thesis .
qed

lemma chunk_path_last:
  assumes "block_store_sound self blocks" "0 \<le> a" "a \<le> e"
  shows "\<exists>x. chunk_path self a e = x @ ''k''"
proof -
  from sound_paths(3) [OF assms] obtain zs where
    z: "make_optimized_file_path (block_storage self) (make_block_chunk_filename a e)
        = zs @ make_block_chunk_filename a e"
    by (auto simp: suffix_def)
  from chunk_filename_shape [of a e] obtain x where
    x: "make_block_chunk_filename a e = x @ ''-block-chunk.msgpack''" by blast
  have "chunk_path self a e = block_directory self @ zs @ make_block_chunk_filename a e"
    by (simp add: chunk_path_def z)
  then have "chunk_path self a e = (block_directory self @ zs @ x @ ''-block-chunk.msgpac'') @ ''k''"
    by (simp add: x)
  then show ?thesis by blast
qed

lemma sibling_last: "q \<in> set (siblings p) \<Longrightarrow> \<exists>x. q = x @ ''z'' \<or> q = x @ ''2''"
  by (auto simp: siblings_def)

lemma chunk_path_not_sibling:
  assumes "block_store_sound self blocks" "0 \<le> a" "a \<le> e"
  shows "chunk_path self a e \<notin> set (siblings p)"
proof
  assume "chunk_path self a e \<in> set (siblings p)"
  from sibling_last [OF this] chunk_path_last [OF assms] show False by auto
qed

lemma sibling_inj:
  assumes "q \<in> set (siblings p)" "q \<in> set (siblings p')"
  shows "p = p'"
proof -
  from assms have "rev q \<in> {''zg.'' @ rev p, ''2zb.'' @ rev p, ''zx.'' @ rev p}"
    "rev q \<in> {''zg.'' @ rev p', ''2zb.'' @ rev p', ''zx.'' @ rev p'}"
    by (auto simp: siblings_def)
  then have "rev p = rev p'" by auto
  then show ?thesis by simp
qed

lemma family_disjoint:
  assumes "block_store_sound self blocks" "0 \<le> a" "a \<le> e" "0 \<le> a'" "a' \<le> e'"
    and "q \<in> set (chunk_path self a e # siblings (chunk_path self a e))"
    and "q \<in> set (chunk_path self a' e' # siblings (chunk_path self a' e'))"
  shows "a = a' \<and> e = e'"
proof -
  from assms(6,7) chunk_path_not_sibling [OF assms(1,2,3)] chunk_path_not_sibling [OF assms(1,4,5)]
  consider "chunk_path self a e = chunk_path self a' e'"
    | "q \<in> set (siblings (chunk_path self a e))" "q \<in> set (siblings (chunk_path self a' e'))"
    by auto
  then have "chunk_path self a e = chunk_path self a' e'"
  proof cases
    case 1
    then show ?thesis .
  next
    case 2
    from sibling_inj [OF 2] show ?thesis .
  qed
  from chunk_path_inj [OF assms(1,2,3,4,5) this] show ?thesis .
qed

lemma load_from_cong:
  assumes "map_option content (map_of (files fs') p) = map_option content (map_of (files fs) p)"
    and "\<forall>q\<in>set (siblings p). map_of (files fs') q = map_of (files fs) q"
  shows "load_from fs' p (DECOMPRESSION_FUNCTIONS lib) = load_from fs p (DECOMPRESSION_FUNCTIONS lib)"
  using assms by (auto simp: DECOMPRESSION_FUNCTIONS_def siblings_def split: option.splits)

lemma chunk_kept_cong:
  assumes "map_option content (map_of (files fs') (chunk_path self a e))
           = map_option content (map_of (files fs) (chunk_path self a e))"
    and "\<forall>q\<in>set (siblings (chunk_path self a e)). map_of (files fs') q = map_of (files fs) q"
    and "chunk_data self bs' a e = chunk_data self bs a e"
  shows "chunk_kept self fs' bs' a e = chunk_kept self fs bs a e"
  unfolding chunk_kept_def load_from_cong [OF assms(1,2)] assms(1) assms(3)
  using assms(2) by simp

lemma prefix_family:
  "q \<in> set (chunk_path self a e # siblings (chunk_path self a e)) \<Longrightarrow>
   prefix (block_directory self) q"
  by (auto simp: chunk_path_def siblings_def)

lemma chunk_data_append:
  assumes "0 \<le> a" "e < int (length bs)"
  shows "chunk_data self (bs @ [b]) a e = chunk_data self bs a e"
proof -
  have "map (\<lambda>i. (bs @ [b]) ! nat i) [a..e] = map (\<lambda>i. bs ! nat i) [a..e]"
    using assms by (intro map_cong) (auto simp: nth_append)
  then show ?thesis unfolding chunk_data_def by (simp only:)
qed

lemma chunk_data_snoc:
  assumes "0 \<le> a" "a \<le> int (length bs)"
  shows "chunk_data self (bs @ [b]) a (int (length bs))
         = chunk_data self bs a (int (length bs) - 1) @ block_to_messagepack self b"
proof -
  have u: "[a..int (length bs)] = [a..int (length bs) - 1] @ [int (length bs)]"
    using assms(2) by (simp add: upto_rec2)
  have m: "map (\<lambda>i. (bs @ [b]) ! nat i) [a..int (length bs) - 1]
      = map (\<lambda>i. bs ! nat i) [a..int (length bs) - 1]"
    using assms by (intro map_cong) (auto simp: nth_append)
  have "chunk_data self (bs @ [b]) a (int (length bs))
      = concat (map (block_to_messagepack self) (map (\<lambda>i. (bs @ [b]) ! nat i) [a..int (length bs) - 1]))
        @ block_to_messagepack self b"
    unfolding chunk_data_def u by simp
  then show ?thesis unfolding chunk_data_def m .
qed

subsection \<open>The ranges of the chunks\<close>

lemma chunk_range_valid:
  assumes "0 < block_chunk_size self" "chunk_range self bs a e"
  shows "0 \<le> a" "a \<le> e" "e < int (length bs)"
  using assms by (auto simp: chunk_range_def)

lemma aligned_below:
  fixes a n s :: int
  assumes "0 < s" "a mod s = 0" "a \<le> n" "a \<noteq> n - n mod s"
  shows "a + s \<le> n - n mod s"
proof -
  have "a - a mod s = (a div s) * s" by (simp add: minus_mod_eq_div_mult)
  with assms(2) have a: "a = (a div s) * s" by simp
  have n: "n - n mod s = (n div s) * s" by (simp add: minus_mod_eq_div_mult)
  from assms(3) assms(1) have "a div s \<le> n div s" by (simp add: zdiv_mono1)
  moreover from a n assms(4) have "a div s \<noteq> n div s" by auto
  ultimately have "a div s \<le> n div s - 1" by simp
  with assms(1) have "(a div s) * s \<le> (n div s - 1) * s" by (simp add: mult_right_mono)
  then have "(a div s) * s + s \<le> (n div s) * s" by (simp add: algebra_simps)
  with a n show ?thesis by simp
qed

lemma current_chunk_bounds:
  fixes n s :: int
  assumes "0 < s" "0 \<le> n"
  shows "0 \<le> n - n mod s" "n - n mod s \<le> n" "n < n - n mod s + s" "(n - n mod s) mod s = 0"
proof -
  from assms(1) have m: "0 \<le> n mod s" "n mod s < s" by simp_all
  then show "n - n mod s \<le> n" "n < n - n mod s + s" by simp_all
  have "n - n mod s = (n div s) * s" by (simp add: minus_mod_eq_div_mult)
  then show "(n - n mod s) mod s = 0" by simp
  from assms have "0 \<le> n div s" by (simp add: pos_imp_zdiv_nonneg_iff)
  with assms(1) have "0 \<le> (n div s) * s" by simp
  then show "0 \<le> n - n mod s" by (simp add: minus_mod_eq_div_mult)
qed

lemma chunk_range_snoc_old:
  assumes "0 < block_chunk_size self" "chunk_range self (bs @ [b]) a e"
    and "a \<noteq> int (length bs) - int (length bs) mod block_chunk_size self"
  shows "chunk_range self bs a e" "e = a + block_chunk_size self - 1"
proof -
  let ?n = "int (length bs)" and ?s = "block_chunk_size self"
  from assms(2) have r: "0 \<le> a" "a mod ?s = 0" "a \<le> ?n" "e = min (a + ?s - 1) ?n"
    by (auto simp: chunk_range_def)
  from aligned_below [OF assms(1) r(2,3) assms(3)] have le: "a + ?s \<le> ?n - ?n mod ?s" .
  from current_chunk_bounds(2) [OF assms(1), of ?n] have "?n - ?n mod ?s \<le> ?n" by simp
  with le have l: "a + ?s \<le> ?n" by linarith
  with r(4) show "e = a + ?s - 1" by simp
  with r l assms(1) show "chunk_range self bs a e" by (simp add: chunk_range_def)
qed

lemma chunk_range_snoc_current:
  assumes "0 < block_chunk_size self"
  shows "chunk_range self (bs @ [b]) (int (length bs) - int (length bs) mod block_chunk_size self) e
         \<longleftrightarrow> e = int (length bs)"
proof -
  let ?n = "int (length bs)" and ?s = "block_chunk_size self"
  from current_chunk_bounds [OF assms, of ?n]
  have b: "0 \<le> ?n - ?n mod ?s" "?n - ?n mod ?s \<le> ?n" "?n < ?n - ?n mod ?s + ?s"
    "(?n - ?n mod ?s) mod ?s = 0" by simp_all
  then have "min (?n - ?n mod ?s + ?s - 1) ?n = ?n" by simp
  with b show ?thesis by (simp add: chunk_range_def)
qed

lemma chunk_range_old_other:
  assumes "0 < block_chunk_size self" "chunk_range self bs a e"
    and "a \<noteq> int (length bs) - int (length bs) mod block_chunk_size self"
  shows "chunk_range self (bs @ [b]) a e"
proof -
  let ?n = "int (length bs)" and ?s = "block_chunk_size self"
  from assms(2) have r: "0 \<le> a" "a mod ?s = 0" "a < ?n" "e = min (a + ?s - 1) (?n - 1)"
    by (auto simp: chunk_range_def)
  from r(3) have "a \<le> ?n" by simp
  from aligned_below [OF assms(1) r(2) this assms(3)] have le: "a + ?s \<le> ?n - ?n mod ?s" .
  from current_chunk_bounds(2) [OF assms(1), of ?n] have "?n - ?n mod ?s \<le> ?n" by simp
  with le have l: "a + ?s \<le> ?n" by linarith
  with r show ?thesis by (simp add: chunk_range_def)
qed

lemma chunk_range_old_current:
  assumes "0 < block_chunk_size self"
    and "chunk_range self bs (int (length bs) - int (length bs) mod block_chunk_size self) e"
  shows "int (length bs) mod block_chunk_size self \<noteq> 0" "e = int (length bs) - 1"
    "e \<noteq> int (length bs) - int (length bs) mod block_chunk_size self + block_chunk_size self - 1"
proof -
  let ?n = "int (length bs)" and ?s = "block_chunk_size self"
  from assms(2) have r: "?n - ?n mod ?s < ?n" "e = min (?n - ?n mod ?s + ?s - 1) (?n - 1)"
    by (auto simp: chunk_range_def)
  from r(1) show "?n mod ?s \<noteq> 0" by simp
  from current_chunk_bounds(3) [OF assms(1), of ?n] have "?n < ?n - ?n mod ?s + ?s" by simp
  with r(2) show "e = ?n - 1" 
    "e \<noteq> ?n - ?n mod ?s + ?s - 1" by simp_all
qed

lemma chunk_range_current_old:
  assumes "0 < block_chunk_size self" "int (length bs) mod block_chunk_size self \<noteq> 0"
  shows "chunk_range self bs (int (length bs) - int (length bs) mod block_chunk_size self)
           (int (length bs) - 1)"
proof -
  let ?n = "int (length bs)" and ?s = "block_chunk_size self"
  from current_chunk_bounds [OF assms(1), of ?n]
  have b: "0 \<le> ?n - ?n mod ?s" "?n < ?n - ?n mod ?s + ?s" "(?n - ?n mod ?s) mod ?s = 0" by simp_all
  from assms(1) have "0 \<le> ?n mod ?s" by simp
  with assms(2) have "0 < ?n mod ?s" by linarith
  with b show ?thesis by (simp add: chunk_range_def)
qed

subsection \<open>Appending a block and finalizing a chunk keep the blocks stored\<close>

lemma append_stored:
  assumes sound: "block_store_sound self blocks"
    and inv: "blocks_stored self fs bs"
    and num: "block_number (message b) = int (length bs)"
    and a0: "a0 = int (length bs) - int (length bs) mod block_chunk_size self"
    and e0: "e0 = (if int (length bs) = a0 then int (length bs) else int (length bs) - 1)"
    and m2: "map_of (files fs2) =
               ((map_of (files fs))(chunk_path self a0 e0 := None))
                 (chunk_path self a0 (int (length bs)) \<mapsto> f)"
    and f: "content f =
              (case map_of (files fs) (chunk_path self a0 e0) of
                 None \<Rightarrow> [] | Some g \<Rightarrow> content g) @ block_to_messagepack self b"
  shows "blocks_stored self fs2 (bs @ [b])"
    and "\<forall>q\<in>set (siblings (chunk_path self a0 (int (length bs)))). map_of (files fs2) q = None"
    and "content f = chunk_data self (bs @ [b]) a0 (int (length bs))"
proof -
  let ?n = "int (length bs)" and ?s = "block_chunk_size self"
  let ?old = "chunk_path self a0 e0" and ?new = "chunk_path self a0 ?n"
  let ?m = "map_of (files fs)" and ?m2 = "map_of (files fs2)"
  from sound have s: "0 < ?s" by (simp add: block_store_sound_def)
  from current_chunk_bounds [OF s, of ?n] a0
  have b: "0 \<le> a0" "a0 \<le> ?n" "?n < a0 + ?s" "a0 mod ?s = 0" by simp_all
  from b(2) e0 have v0: "a0 \<le> e0" by auto
  from inv have i1: "\<forall>i<length bs. block_number (message (bs ! i)) = int i"
    and i2: "\<And>a e. chunk_range self bs a e \<Longrightarrow> chunk_kept self fs bs a e"
    and i3: "\<And>q. prefix (block_directory self) q \<Longrightarrow> ?m q \<noteq> None \<Longrightarrow>
               \<exists>a e. chunk_range self bs a e \<and>
                 q \<in> set (chunk_path self a e # siblings (chunk_path self a e))"
    by (auto simp: blocks_stored_def)
  have fresh: "?m q = None" if q: "q \<in> set (?new # siblings ?new)" for q
  proof (rule ccontr)
    assume "?m q \<noteq> None"
    from i3 [OF prefix_family [OF q] this] obtain a e where
      r: "chunk_range self bs a e" "q \<in> set (chunk_path self a e # siblings (chunk_path self a e))"
      by blast
    from chunk_range_valid [OF s r(1)] have v: "0 \<le> a" "a \<le> e" "e < ?n" .
    from family_disjoint [OF sound v(1,2) b(1,2) r(2) q] v(3) show False by simp
  qed
  have old: "map_option content (?m ?old) = Some (chunk_data self bs a0 (?n - 1)) \<and>
             (\<forall>q\<in>set (siblings ?old). ?m q = None)" if ne: "?n \<noteq> a0"
  proof -
    from ne a0 have "?n mod ?s \<noteq> 0" by simp
    from chunk_range_current_old [OF s this] a0 have r: "chunk_range self bs a0 (?n - 1)" by simp
    from b(3) have "?n - 1 \<noteq> a0 + ?s - 1" by simp
    with i2 [OF r] ne e0 show ?thesis by (simp add: chunk_kept_def)
  qed
  have data: "(case ?m ?old of None \<Rightarrow> [] | Some g \<Rightarrow> content g) = chunk_data self bs a0 (?n - 1)"
  proof (cases "?n = a0")
    case True
    with e0 have "?old = ?new" by simp
    with fresh [of ?new] have "?m ?old = None" by simp
    moreover from True have "chunk_data self bs a0 (?n - 1) = []" by (simp add: chunk_data_def)
    ultimately show ?thesis by simp
  next
    case False
    from old [OF False] show ?thesis by (auto split: option.splits)
  qed
  from chunk_data_snoc [OF b(1,2), of self b] f data
  show c: "content f = chunk_data self (bs @ [b]) a0 ?n" by simp
  have sib2: "?m2 q = None" if q: "q \<in> set (siblings ?new)" for q
  proof -
    from q have "q \<noteq> ?new" by (auto simp: siblings_def)
    with m2 fresh [of q] q show ?thesis by simp
  qed
  then show "\<forall>q\<in>set (siblings ?new). ?m2 q = None" by blast
  have new2: "?m2 ?new = Some f" using m2 by simp
  have k1: "\<forall>i<length (bs @ [b]). block_number (message ((bs @ [b]) ! i)) = int i"
    using i1 num by (auto simp: nth_append less_Suc_eq)
  have k2: "chunk_kept self fs2 (bs @ [b]) a e" if r: "chunk_range self (bs @ [b]) a e" for a e
  proof (cases "a = a0")
    case True
    with r chunk_range_snoc_current [OF s, of bs b e] a0 have e: "e = ?n" by simp
    from sib2 have "?m2 (?new @ ''.gz'') = None" "?m2 (?new @ ''.bz2'') = None"
      "?m2 (?new @ ''.xz'') = None" by (simp_all add: siblings_def)
    from load_from_raw [OF this new2]
    have "load_from fs2 ?new (DECOMPRESSION_FUNCTIONS (library (storage (block_storage self))))
          = Inr (content f)" .
    with c new2 sib2 True e show ?thesis by (simp add: chunk_kept_def)
  next
    case False
    with a0 have ne: "a \<noteq> ?n - ?n mod ?s" by simp
    from chunk_range_snoc_old [OF s r ne] have r': "chunk_range self bs a e" "e = a + ?s - 1" .
    from chunk_range_valid [OF s r'(1)] have v: "0 \<le> a" "a \<le> e" "e < ?n" .
    have same: "?m2 q = ?m q" if q: "q \<in> set (chunk_path self a e # siblings (chunk_path self a e))" for q
    proof -
      have "q \<noteq> ?new"
      proof
        assume "q = ?new"
        then have "q \<in> set (?new # siblings ?new)" by simp
        from family_disjoint [OF sound v(1,2) b(1,2) q this] False show False by simp
      qed
      moreover have "q \<noteq> ?old"
      proof
        assume "q = ?old"
        then have "q \<in> set (?old # siblings ?old)" by simp
        from family_disjoint [OF sound v(1,2) b(1) v0 q this] False show False by simp
      qed
      ultimately show ?thesis using m2 by simp
    qed
    then have "map_option content (?m2 (chunk_path self a e)) = map_option content (?m (chunk_path self a e))"
      "\<forall>q\<in>set (siblings (chunk_path self a e)). ?m2 q = ?m q" by simp_all
    from chunk_kept_cong [OF this chunk_data_append [OF v(1,3)]] i2 [OF r'(1)]
    show ?thesis by simp
  qed
  have k3: "\<exists>a e. chunk_range self (bs @ [b]) a e \<and>
                 q \<in> set (chunk_path self a e # siblings (chunk_path self a e))"
    if p: "prefix (block_directory self) q" and ex: "?m2 q \<noteq> None" for q
  proof (cases "q = ?new")
    case True
    from chunk_range_snoc_current [OF s, of bs b ?n] a0 have "chunk_range self (bs @ [b]) a0 ?n" by simp
    with True show ?thesis by auto
  next
    case False
    with m2 ex have q: "q \<noteq> ?old" "?m q \<noteq> None" by (auto split: if_splits)
    from i3 [OF p q(2)] obtain a e where
      r: "chunk_range self bs a e" "q \<in> set (chunk_path self a e # siblings (chunk_path self a e))"
      by blast
    show ?thesis
    proof (cases "a = a0")
      case True
      with r(1) a0 chunk_range_old_current [OF s, of bs e]
      have "?n mod ?s \<noteq> 0" "e = ?n - 1" by simp_all
      with a0 e0 have "?n \<noteq> a0" "e = e0" by auto
      with r(2) True q(1) have "q \<in> set (siblings ?old)" by simp
      with old [OF \<open>?n \<noteq> a0\<close>] have "?m q = None" by simp
      with q(2) show ?thesis by simp
    next
      case False
      with a0 have "a \<noteq> ?n - ?n mod ?s" by simp
      from chunk_range_old_other [OF s r(1) this] r(2) show ?thesis by blast
    qed
  qed
  from k1 k2 k3 show "blocks_stored self fs2 (bs @ [b])"
    unfolding blocks_stored_def by blast
qed

lemma finalize_stored:
  assumes sound: "block_store_sound self blocks"
    and inv: "blocks_stored self fs bs"
    and range: "chunk_range self bs a e"
    and complete: "e = a + block_chunk_size self - 1"
    and raw: "map_of (files fs) (chunk_path self a e) = Some f"
    and data: "content f = chunk_data self bs a e"
    and nosib: "\<forall>q\<in>set (siblings (chunk_path self a e)). map_of (files fs) q = None"
    and out: "(\<exists>f'. content f' = content f \<and>
                 map_of (files fs') = (map_of (files fs))(chunk_path self a e \<mapsto> f')) \<or>
              (\<exists>c\<in>set (compressors (storage (block_storage self))).
                 c \<in> fst ` set (COMPRESSION_FUNCTIONS (library (storage (block_storage self)))) \<and>
                 (\<exists>f'. content f' =
                         compressed_with (library (storage (block_storage self))) c (content f) \<and>
                       map_of (files fs') =
                         (map_of (files fs))(chunk_path self a e := None,
                                             chunk_path self a e @ ''.'' @ c \<mapsto> f')))"
  shows "blocks_stored self fs' bs"
proof -
  let ?s = "block_chunk_size self" and ?p = "chunk_path self a e"
  let ?m = "map_of (files fs)" and ?m' = "map_of (files fs')"
  let ?lib = "library (storage (block_storage self))"
  from sound have s: "0 < ?s" by (simp add: block_store_sound_def)
  from sound have rt: "\<And>c d. c \<in> set (compressors (storage (block_storage self))) \<Longrightarrow>
      decompressed_with ?lib c (compressed_with ?lib c d) = Inr d"
    by (simp add: block_store_sound_def)
  from chunk_range_valid [OF s range] have v: "0 \<le> a" "a \<le> e" "e < int (length bs)" .
  from inv have i1: "\<forall>i<length bs. block_number (message (bs ! i)) = int i"
    and i2: "\<And>a e. chunk_range self bs a e \<Longrightarrow> chunk_kept self fs bs a e"
    and i3: "\<And>q. prefix (block_directory self) q \<Longrightarrow> ?m q \<noteq> None \<Longrightarrow>
               \<exists>a e. chunk_range self bs a e \<and>
                 q \<in> set (chunk_path self a e # siblings (chunk_path self a e))"
    by (auto simp: blocks_stored_def)
  have changed: "?m' q = ?m q" if "q \<notin> set (?p # siblings ?p)" for q
    using out that by (auto simp: siblings_def COMPRESSION_FUNCTIONS_def)
  have present: "q \<in> set (?p # siblings ?p) \<or> ?m q \<noteq> None" if "?m' q \<noteq> None" for q
  proof (cases "q \<in> set (?p # siblings ?p)")
    case True
    then show ?thesis ..
  next
    case False
    from changed [OF False] that show ?thesis by simp
  qed
  have load: "load_from fs' ?p (DECOMPRESSION_FUNCTIONS ?lib) = Inr (chunk_data self bs a e)"
    using out
  proof
    assume "\<exists>f'. content f' = content f \<and> ?m' = ?m(?p \<mapsto> f')"
    then obtain f' where f': "content f' = content f" "?m' = ?m(?p \<mapsto> f')" by blast
    from f'(2) nosib have "?m' (?p @ ''.gz'') = None" "?m' (?p @ ''.bz2'') = None"
      "?m' (?p @ ''.xz'') = None" "?m' ?p = Some f'" by (simp_all add: siblings_def)
    from load_from_raw [OF this] f'(1) data show ?thesis by simp
  next
    assume "\<exists>c\<in>set (compressors (storage (block_storage self))).
              c \<in> fst ` set (COMPRESSION_FUNCTIONS ?lib) \<and>
              (\<exists>f'. content f' = compressed_with ?lib c (content f) \<and>
                    ?m' = ?m(?p := None, ?p @ ''.'' @ c \<mapsto> f'))"
    then obtain c f' where c: "c \<in> set (compressors (storage (block_storage self)))"
      "c \<in> fst ` set (COMPRESSION_FUNCTIONS ?lib)"
      "content f' = compressed_with ?lib c (content f)"
      "?m' = ?m(?p := None, ?p @ ''.'' @ c \<mapsto> f')" by blast
    from c(4) have here: "?m' (?p @ ''.'' @ c) = Some f'" by simp
    have others: "?m' (?p @ ''.'' @ d) = None" if "d \<in> {''gz'', ''bz2'', ''xz''}" "d \<noteq> c" for d
    proof -
      from that(1) have "?p @ ''.'' @ d \<in> set (siblings ?p)" by (auto simp: siblings_def)
      with nosib have "?m (?p @ ''.'' @ d) = None" by blast
      with c(4) that(2) show ?thesis by simp
    qed
    from load_from_sibling [OF c(2) here others] c(3) rt [OF c(1)] data
    show ?thesis by simp
  qed
  have k2: "chunk_kept self fs' bs a' e'" if r: "chunk_range self bs a' e'" for a' e'
  proof (cases "a' = a \<and> e' = e")
    case True
    with load complete show ?thesis by (simp add: chunk_kept_def)
  next
    case False
    from chunk_range_valid [OF s r] have v': "0 \<le> a'" "a' \<le> e'" by simp_all
    have "?m' q = ?m q" if q: "q \<in> set (chunk_path self a' e' # siblings (chunk_path self a' e'))" for q
    proof (rule changed, rule notI)
      assume "q \<in> set (?p # siblings ?p)"
      from family_disjoint [OF sound v' v(1,2) q this] False show False by simp
    qed
    then have "map_option content (?m' (chunk_path self a' e')) = map_option content (?m (chunk_path self a' e'))"
      "\<forall>q\<in>set (siblings (chunk_path self a' e')). ?m' q = ?m q" by simp_all
    from chunk_kept_cong [OF this refl, of bs] i2 [OF r] show ?thesis by simp
  qed
  have k3: "\<exists>a e. chunk_range self bs a e \<and>
                 q \<in> set (chunk_path self a e # siblings (chunk_path self a e))"
    if p: "prefix (block_directory self) q" and ex: "?m' q \<noteq> None" for q
    using present [OF ex]
  proof
    assume "q \<in> set (?p # siblings ?p)"
    with range show ?thesis by blast
  next
    assume "?m q \<noteq> None"
    from i3 [OF p this] show ?thesis .
  qed
  from i1 k2 k3 show ?thesis unfolding blocks_stored_def by blast
qed

subsection \<open>What the operations of the store do to the files\<close>

lemma po_append_result:
  assumes "get_absolute_path' (storage S) (make_optimized_file_path S nm) = Inr p"
    and "po_append S fs nm d False = (r, fs1)"
  shows "(\<exists>e. r = Inl e) \<and> fs1 = fs \<or>
         r = Inr () \<and>
         map_of (files fs1) =
           (map_of (files fs))(p \<mapsto>
              \<lparr>content = (case map_of (files fs) p of None \<Rightarrow> [] | Some g \<Rightarrow> content g) @ d,
               st_mode = new_file_mode fs\<rparr>)"
  using assms
  by (auto simp: po_append_def append_to_def persist'_def write_file'_def
        atomic_write_append_def update_conv' split: if_splits)

lemma po_move_result:
  assumes "get_absolute_path' (storage S) (make_optimized_file_path S nm) = Inr p"
    and "get_absolute_path' (storage S) (make_optimized_file_path S nm') = Inr p'"
    and "map_of (files fs) p = Some f" and "p \<noteq> p'"
  shows "\<exists>fs'. po_move S fs nm nm' = (Inr (), fs') \<and>
               map_of (files fs') = (map_of (files fs))(p := None, p' \<mapsto> f)"
  using assms by (simp add: po_move_def move_def os_rename_def update_conv' delete_conv')

lemma drop_write_permissions_map:
  assumes "map_of (files fs) q = Some f"
  shows "\<exists>fs' f'. drop_write_permissions fs q = (Inr (), fs') \<and> content f' = content f \<and>
                  map_of (files fs') = (map_of (files fs))(q \<mapsto> f')"
proof -
  let ?f' = "f\<lparr>st_mode := st_mode f - (st_mode f AND STAT_WRITE_PERMS_ALL)\<rparr>"
  let ?fs' = "fs\<lparr>files := AList.update q ?f' (files fs)\<rparr>"
  from assms have "drop_write_permissions fs q = (Inr (), ?fs')"
    by (simp add: drop_write_permissions_def Let_def)
  moreover have "content ?f' = content f" by simp
  moreover have "map_of (files ?fs') = (map_of (files fs))(q \<mapsto> ?f')"
    by (simp add: update_conv')
  ultimately show ?thesis by blast
qed

lemma po_finalize_result:
  assumes abs: "get_absolute_path' (storage S) (make_optimized_file_path S nm) = Inr p"
    and raw: "map_of (files fs) p = Some f"
    and run: "po_finalize S fs nm = (r, fs')"
  shows "(\<exists>f'. content f' = content f \<and> map_of (files fs') = (map_of (files fs))(p \<mapsto> f')) \<or>
         (\<exists>c\<in>set (compressors (storage S)).
            c \<in> fst ` set (COMPRESSION_FUNCTIONS (library (storage S))) \<and>
            (\<exists>f'. content f' = compressed_with (library (storage S)) c (content f) \<and>
                  map_of (files fs') = (map_of (files fs))(p := None, p @ ''.'' @ c \<mapsto> f')))"
proof -
  obtain r1 fs1 where c: "compress' (storage S) fs p = (r1, fs1)" by (cases "compress' (storage S) fs p")
  from run abs c have fin: "(case r1 of Inl e \<Rightarrow> (Inl e, fs1)
      | Inr new_filename \<Rightarrow> drop_write_permissions fs1 new_filename) = (r, fs')"
    by (simp add: po_finalize_def finalize_def finalize'_def)
  from compress_cases [OF c raw]
  consider "fs1 = fs" "r1 = Inr p" | e where "fs1 = fs" "r1 = Inl e"
    | c' where "c' \<in> set (compressors (storage S))"
        "c' \<in> fst ` set (COMPRESSION_FUNCTIONS (library (storage S)))"
        "r1 = Inr (p @ ''.'' @ c')"
        "fs1 = compressed_state fs p c' (compressed_with (library (storage S)) c' (content f))"
    by blast
  then show ?thesis
  proof cases
    case 1
    from drop_write_permissions_map [OF raw] fin 1 show ?thesis by auto
  next
    case 2
    with fin have "fs' = fs" by simp
    moreover from raw have "(map_of (files fs))(p \<mapsto> f) = map_of (files fs)" by (rule map_upd_triv)
    ultimately show ?thesis by auto
  next
    case 3
    let ?d = "compressed_with (library (storage S)) c' (content f)"
    let ?g = "\<lparr>content = ?d, st_mode = new_file_mode fs\<rparr>"
    have l: "map_of (files fs1) = (map_of (files fs))(p := None, p @ ''.'' @ c' \<mapsto> ?g)"
      unfolding 3(4) by (rule ext) (simp add: compressed_state_lookup)
    then have "map_of (files fs1) (p @ ''.'' @ c') = Some ?g" by simp
    from drop_write_permissions_map [OF this] obtain fs2 f' where
      d: "drop_write_permissions fs1 (p @ ''.'' @ c') = (Inr (), fs2)" "content f' = content ?g"
      "map_of (files fs2) = (map_of (files fs1))(p @ ''.'' @ c' \<mapsto> f')" by blast
    from fin 3(3) d(1) have "fs' = fs2" by simp
    with d(2,3) l have "content f' = ?d"
      "map_of (files fs') = (map_of (files fs))(p := None, p @ ''.'' @ c' \<mapsto> f')" by simp_all
    with 3(1,2) show ?thesis by blast
  qed
qed

subsection \<open>\<^verbatim>\<open>persist_block\<close> keeps the blocks stored\<close>

lemma persist_block_steps:
  assumes "is_locked w" and "0 < block_chunk_size self" and "0 \<le> block_number (message block)"
    and "n = block_number (message block)"
    and "a0 = n - n mod block_chunk_size self"
    and "e0 = (if n = a0 then n else n - 1)"
  shows "persist_block self w block =
           (case po_append (block_storage self) (disk w) (make_block_chunk_filename a0 e0)
                   (block_to_messagepack self block) False of
              (Inl e, fs1) \<Rightarrow> (Inl e, w\<lparr>disk := fs1\<rparr>)
            | (Inr u, fs1) \<Rightarrow>
                (case (if n \<noteq> a0
                       then po_move (block_storage self) fs1 (make_block_chunk_filename a0 e0)
                              (make_block_chunk_filename a0 n)
                       else (Inr (), fs1)) of
                   (Inl e, fs2) \<Rightarrow> (Inl e, w\<lparr>disk := fs2\<rparr>)
                 | (Inr v, fs2) \<Rightarrow>
                     if n mod block_chunk_size self = block_chunk_size self - 1
                     then (case po_finalize (block_storage self) fs2 (make_block_chunk_filename a0 n) of
                             (r, fs3) \<Rightarrow> (r, w\<lparr>disk := fs3\<rparr>))
                     else (Inr (), w\<lparr>disk := fs2\<rparr>)))"
proof -
  let ?s = "block_chunk_size self"
  have cs: "(n div ?s) * ?s = a0" using assms(5) by (simp add: minus_mod_eq_div_mult)
  from current_chunk_bounds [OF assms(2), of n] assms(3,4,5)
  have b: "0 \<le> a0" "a0 \<le> n" by simp_all
  have differ: "make_block_chunk_filename a0 e0 \<noteq> make_block_chunk_filename a0 n \<longleftrightarrow> n \<noteq> a0"
  proof (cases "n = a0")
    case True
    with assms(6) show ?thesis by simp
  next
    case False
    with b have "0 \<le> n - 1" by linarith
    moreover from assms(3,4) have "0 \<le> n" by simp
    ultimately have "make_block_chunk_filename a0 (n - 1) = make_block_chunk_filename a0 n \<longleftrightarrow> n - 1 = n"
      by (rule make_block_chunk_filename_end_inj)
    with False assms(6) show ?thesis by simp
  qed
  have ok: "\<not> ((n div ?s) * ?s \<noteq> n \<and> \<not> (n div ?s) * ?s < n)" using b cs by linarith
  have e: "(if a0 = n then n else n - 1) = e0" using assms(6) by auto
  have le: "(n div ?s) * ?s \<le> n" using b cs by simp
  have raw: "persist_block self w block =
           (case po_append (block_storage self) (disk w)
                   (make_block_chunk_filename ((n div ?s) * ?s)
                      (if (n div ?s) * ?s = n then n else n - 1))
                   (block_to_messagepack self block) False of
              (Inl e, fs1) \<Rightarrow> (Inl e, w\<lparr>disk := fs1\<rparr>)
            | (Inr u, fs1) \<Rightarrow>
                (case (if make_block_chunk_filename ((n div ?s) * ?s)
                            (if (n div ?s) * ?s = n then n else n - 1)
                          \<noteq> make_block_chunk_filename ((n div ?s) * ?s) n
                       then po_move (block_storage self) fs1
                              (make_block_chunk_filename ((n div ?s) * ?s)
                                 (if (n div ?s) * ?s = n then n else n - 1))
                              (make_block_chunk_filename ((n div ?s) * ?s) n)
                       else (Inr (), fs1)) of
                   (Inl e, fs2) \<Rightarrow> (Inl e, w\<lparr>disk := fs2\<rparr>)
                 | (Inr v, fs2) \<Rightarrow>
                     if n mod ?s = ?s - 1
                     then (case po_finalize (block_storage self) fs2
                                 (make_block_chunk_filename ((n div ?s) * ?s) n) of
                             (r, fs3) \<Rightarrow> (r, w\<lparr>disk := fs3\<rparr>))
                     else (Inr (), w\<lparr>disk := fs2\<rparr>)))"
    using assms(1,2) ok le
    by (simp add: persist_block_def ensure_locked_def Let_def assms(4) [symmetric])
  have differ': "(make_block_chunk_filename a0 e0 \<noteq> make_block_chunk_filename a0 n) = (n \<noteq> a0)"
    using differ by simp
  show ?thesis by (simp only: raw cs e differ')
qed

lemma persist_block_stored:
  assumes sound: "block_store_sound self blocks"
    and inv: "blocks_stored self (disk w) bs"
    and num: "block_number (message b) = int (length bs)"
    and run: "persist_block self w b = (r, w')"
  shows "(blocks_stored self (disk w') bs \<and> (\<exists>e. r = Inl e) \<or>
          blocks_stored self (disk w') (bs @ [b])) \<and>
         blocks_cache w' = blocks_cache w"
proof (cases "is_locked w")
  case False
  with run have "w' = w" "\<exists>e. r = Inl e" by (auto simp: persist_block_def ensure_locked_def)
  with inv show ?thesis by simp
next
  case True
  let ?n = "int (length bs)" and ?s = "block_chunk_size self" and ?S = "block_storage self"
  define a0 where "a0 = ?n - ?n mod ?s"
  define e0 where "e0 = (if ?n = a0 then ?n else ?n - 1)"
  let ?old = "chunk_path self a0 e0" and ?new = "chunk_path self a0 ?n"
  let ?m = "map_of (files (disk w))"
  from sound have s: "0 < ?s" by (simp add: block_store_sound_def)
  from current_chunk_bounds [OF s, of ?n] a0_def
  have b: "0 \<le> a0" "a0 \<le> ?n" "?n < a0 + ?s" by simp_all
  from b(2) e0_def have v0: "a0 \<le> e0" by auto
  note abs_old = sound_paths(1) [OF sound b(1) v0]
  note abs_new = sound_paths(1) [OF sound b(1,2)]
  have n0: "0 \<le> block_number (message b)" using num by simp
  note steps = persist_block_steps [OF True s n0 num [symmetric] a0_def e0_def]
  obtain r1 fs1 where ap: "po_append ?S (disk w) (make_block_chunk_filename a0 e0)
      (block_to_messagepack self b) False = (r1, fs1)"
    by (cases "po_append ?S (disk w) (make_block_chunk_filename a0 e0) (block_to_messagepack self b) False")
  from po_append_result [OF abs_old ap]
  consider e where "r1 = Inl e" "fs1 = disk w"
    | "r1 = Inr ()" "map_of (files fs1) = ?m(?old \<mapsto>
          \<lparr>content = (case ?m ?old of None \<Rightarrow> [] | Some g \<Rightarrow> content g) @ block_to_messagepack self b,
           st_mode = new_file_mode (disk w)\<rparr>)"
    by blast
  then show ?thesis
  proof cases
    case 1
    with run steps ap have "w' = w\<lparr>disk := disk w\<rparr>" "r = Inl e" by simp_all
    with inv show ?thesis by simp
  next
    case 2
    let ?g = "\<lparr>content = (case ?m ?old of None \<Rightarrow> [] | Some g \<Rightarrow> content g) @ block_to_messagepack self b,
           st_mode = new_file_mode (disk w)\<rparr>"
    have mv: "\<exists>fs2. (if ?n \<noteq> a0
                then po_move ?S fs1 (make_block_chunk_filename a0 e0) (make_block_chunk_filename a0 ?n)
                else (Inr (), fs1)) = (Inr (), fs2) \<and>
              map_of (files fs2) = (?m(?old := None))(?new \<mapsto> ?g)"
    proof (cases "?n = a0")
      case True
      with e0_def have "?old = ?new" by simp
      with True 2(2) show ?thesis by simp
    next
      case False
      with e0_def have "e0 \<noteq> ?n" by simp
      with chunk_path_inj [OF sound b(1) v0 b(1,2)] have ne: "?old \<noteq> ?new" by blast
      from 2(2) have "map_of (files fs1) ?old = Some ?g" by simp
      from po_move_result [OF abs_old abs_new this ne] obtain fs2 where
        "po_move ?S fs1 (make_block_chunk_filename a0 e0) (make_block_chunk_filename a0 ?n) = (Inr (), fs2)"
        "map_of (files fs2) = (map_of (files fs1))(?old := None, ?new \<mapsto> ?g)" by blast
      with False 2(2) show ?thesis by simp
    qed
    then obtain fs2 where fs2: "(if ?n \<noteq> a0
                then po_move ?S fs1 (make_block_chunk_filename a0 e0) (make_block_chunk_filename a0 ?n)
                else (Inr (), fs1)) = (Inr (), fs2)"
      "map_of (files fs2) = (?m(?old := None))(?new \<mapsto> ?g)" by blast
    have "content ?g = (case ?m ?old of None \<Rightarrow> [] | Some g \<Rightarrow> content g) @ block_to_messagepack self b"
      by simp
    from append_stored [OF sound inv num a0_def e0_def fs2(2) this]
    have st2: "blocks_stored self fs2 (bs @ [b])"
      and sib2: "\<forall>q\<in>set (siblings ?new). map_of (files fs2) q = None"
      and dat2: "content ?g = chunk_data self (bs @ [b]) a0 ?n" .
    show ?thesis
    proof (cases "?n mod ?s = ?s - 1")
      case False
      with run steps ap 2(1) fs2(1) have "w' = w\<lparr>disk := fs2\<rparr>" by simp
      with st2 show ?thesis by simp
    next
      case fin: True
      obtain r3 fs3 where f3: "po_finalize ?S fs2 (make_block_chunk_filename a0 ?n) = (r3, fs3)"
        by (cases "po_finalize ?S fs2 (make_block_chunk_filename a0 ?n)")
      with run steps ap 2(1) fs2(1) fin have w': "w' = w\<lparr>disk := fs3\<rparr>" by simp
      from fs2(2) have raw: "map_of (files fs2) ?new = Some ?g" by simp
      note out = po_finalize_result [OF abs_new raw f3]
      from chunk_range_snoc_current [OF s, of bs b ?n] a0_def
      have range: "chunk_range self (bs @ [b]) a0 ?n" by simp
      from fin a0_def have complete: "?n = a0 + ?s - 1" by simp
      from finalize_stored [OF sound st2 range complete raw dat2 sib2 out] w'
      show ?thesis by simp
    qed
  qed
qed

subsection \<open>The listing of a store that holds a list of blocks\<close>

lemma strip_raw: "strip_compression_extension lib (g @ ''k'') = g @ ''k''"
  by (simp add: strip_compression_extension_def DECOMPRESSION_FUNCTIONS_def suffix_to_prefix)

lemma strip_sibling:
  "q \<in> set (siblings p) \<Longrightarrow> strip_compression_extension lib q = p"
  by (auto simp: siblings_def strip_compression_extension_def DECOMPRESSION_FUNCTIONS_def
        suffix_to_prefix)

lemma logical_of_family:
  assumes "block_store_sound self blocks" "0 \<le> a" "a \<le> e"
    and "q \<in> set (chunk_path self a e # siblings (chunk_path self a e))"
  shows "logical_file_path (block_storage self)
           (strip_compression_extension (library (storage (block_storage self)))
              (drop (length (block_directory self)) q))
         = make_block_chunk_filename a e"
proof -
  let ?f = "make_optimized_file_path (block_storage self) (make_block_chunk_filename a e)"
  let ?lib = "library (storage (block_storage self))"
  from chunk_path_last [OF assms(1,2,3)] obtain x where x: "chunk_path self a e = x @ ''k''" by blast
  have k: "\<exists>g. ?f = g @ ''k''"
  proof -
    from sound_paths(3) [OF assms(1,2,3)] obtain zs where "?f = zs @ make_block_chunk_filename a e"
      by (auto simp: suffix_def)
    moreover from chunk_filename_shape [of a e] obtain y where
      "make_block_chunk_filename a e = y @ ''-block-chunk.msgpack''" by blast
    ultimately have "?f = (zs @ y @ ''-block-chunk.msgpac'') @ ''k''" by simp
    then show ?thesis by blast
  qed
  from assms(4) have "drop (length (block_directory self)) q \<in> set (?f # siblings ?f)"
    by (auto simp: chunk_path_def siblings_def)
  then consider "drop (length (block_directory self)) q = ?f"
    | "drop (length (block_directory self)) q \<in> set (siblings ?f)" by auto
  then have "strip_compression_extension ?lib (drop (length (block_directory self)) q) = ?f"
  proof cases
    assume "drop (length (block_directory self)) q = ?f"
    with k strip_raw [of ?lib] show ?thesis by auto
  next
    assume "drop (length (block_directory self)) q \<in> set (siblings ?f)"
    then show ?thesis by (rule strip_sibling)
  qed
  with sound_paths(2) [OF assms(1,2,3)] show ?thesis by simp
qed

lemma set_po_list_directory:
  "set (po_list_directory S fs direction) =
     (\<lambda>q. logical_file_path S
             (strip_compression_extension (library (storage S))
                (drop (length (concat (map ((#) CHR ''/'') (base_path (storage S))) @ ''/'')) q)))
     ` {q \<in> fst ` set (files fs).
          prefix (concat (map ((#) CHR ''/'') (base_path (storage S))) @ ''/'') q}"
  by (cases direction) (auto simp: po_list_directory_def Let_def)

lemma listed_chunks:
  assumes sound: "block_store_sound self blocks"
    and inv: "blocks_stored self fs bs"
    and p: "p \<in> set (po_list_directory (block_storage self) fs direction)"
  shows "\<exists>a e. chunk_range self bs a e \<and> p = make_block_chunk_filename a e"
proof -
  from sound have s: "0 < block_chunk_size self" by (simp add: block_store_sound_def)
  from p obtain q where q: "q \<in> fst ` set (files fs)" "prefix (block_directory self) q"
    "p = logical_file_path (block_storage self)
           (strip_compression_extension (library (storage (block_storage self)))
              (drop (length (block_directory self)) q))"
    unfolding set_po_list_directory block_directory_def by blast
  from q(1) have "map_of (files fs) q \<noteq> None" by (simp add: map_of_eq_None_iff)
  with inv q(2) obtain a e where r: "chunk_range self bs a e"
    "q \<in> set (chunk_path self a e # siblings (chunk_path self a e))"
    unfolding blocks_stored_def by blast
  from chunk_range_valid [OF s r(1)] have "0 \<le> a" "a \<le> e" by simp_all
  from logical_of_family [OF sound this r(2)] q(3) r(1) show ?thesis by blast
qed

lemma load_from_exists:
  "load_from fs p (DECOMPRESSION_FUNCTIONS lib) = Inr d \<Longrightarrow>
   \<exists>q\<in>set (p # siblings p). map_of (files fs) q \<noteq> None"
  by (auto simp: DECOMPRESSION_FUNCTIONS_def siblings_def split: option.splits)

lemma chunks_listed:
  assumes sound: "block_store_sound self blocks"
    and inv: "blocks_stored self fs bs"
    and r: "chunk_range self bs a e"
  shows "make_block_chunk_filename a e \<in> set (po_list_directory (block_storage self) fs direction)"
proof -
  from sound have s: "0 < block_chunk_size self" by (simp add: block_store_sound_def)
  from chunk_range_valid [OF s r] have v: "0 \<le> a" "a \<le> e" by simp_all
  from inv r have "chunk_kept self fs bs a e" by (simp add: blocks_stored_def)
  then have "load_from fs (chunk_path self a e)
      (DECOMPRESSION_FUNCTIONS (library (storage (block_storage self)))) = Inr (chunk_data self bs a e)"
    by (simp add: chunk_kept_def)
  from load_from_exists [OF this] obtain q where
    q: "q \<in> set (chunk_path self a e # siblings (chunk_path self a e))" "map_of (files fs) q \<noteq> None"
    by blast
  from q(2) have "q \<in> fst ` set (files fs)" by (simp add: map_of_eq_None_iff)
  with prefix_family [OF q(1)]
  have "logical_file_path (block_storage self)
           (strip_compression_extension (library (storage (block_storage self)))
              (drop (length (block_directory self)) q))
        \<in> set (po_list_directory (block_storage self) fs direction)"
    unfolding set_po_list_directory block_directory_def by blast
  with logical_of_family [OF sound v q(1)] show ?thesis by simp
qed

lemma load_chunk:
  assumes sound: "block_store_sound self blocks"
    and inv: "blocks_stored self fs bs"
    and r: "chunk_range self bs a e"
  shows "po_load (block_storage self) fs (make_block_chunk_filename a e)
         = Inr (chunk_data self bs a e)"
proof -
  from sound have s: "0 < block_chunk_size self" by (simp add: block_store_sound_def)
  from chunk_range_valid [OF s r] have v: "0 \<le> a" "a \<le> e" by simp_all
  from inv r have "chunk_kept self fs bs a e" by (simp add: blocks_stored_def)
  with sound_paths(1) [OF sound v] show ?thesis
    by (simp add: po_load_def load_def chunk_kept_def)
qed

lemma unpack_chunk:
  assumes sound: "block_store_sound self blocks"
    and sub: "set bs \<subseteq> set blocks"
    and r: "chunk_range self bs a e"
  shows "unpack_blocks self (chunk_data self bs a e) = map (\<lambda>i. bs ! nat i) [a..e]"
proof -
  from sound have s: "0 < block_chunk_size self" by (simp add: block_store_sound_def)
  from chunk_range_valid [OF s r] have v: "0 \<le> a" "e < int (length bs)" by simp_all
  then have "set (map (\<lambda>i. bs ! nat i) [a..e]) \<subseteq> set bs" by auto
  with sub have "set (map (\<lambda>i. bs ! nat i) [a..e]) \<subseteq> set blocks" by blast
  with sound show ?thesis unfolding block_store_sound_def chunk_data_def by blast
qed

lemma chain_of_chunk:
  assumes "0 \<le> a" "e < int (length bs)"
  shows "map (chain_of bs) [a..e] = map (\<lambda>i. bs ! nat i) [a..e]"
  using assms by (intro map_cong) (auto simp: chain_of_def)

lemma numbered_chain_of:
  assumes "\<forall>i<length bs. block_number (message (bs ! i)) = int i"
  shows "numbered (chain_of bs)"
  unfolding numbered_def
proof
  fix k
  show "block_number (message (chain_of bs k)) = k"
  proof (cases "0 \<le> k \<and> k < int (length bs)")
    case True
    then have "nat k < length bs" by linarith
    with assms have "block_number (message (bs ! nat k)) = int (nat k)" by blast
    with True show ?thesis by (simp add: chain_of_def)
  next
    case False
    then have "chain_of bs k = \<lparr>message = \<lparr>block_number = k, block_identifier = [], timestamp = [],
                        signed_change_request = [], updated_account_states = []\<rparr>,
            block_hash = []\<rparr>"
      unfolding chain_of_def by (rule if_not_P)
    then show ?thesis by simp
  qed
qed

lemma stored_chunk_consistent:
  assumes sound: "block_store_sound self blocks"
    and inv: "blocks_stored self fs bs"
    and sub: "set bs \<subseteq> set blocks"
    and p: "p \<in> set (po_list_directory (block_storage self) fs direction)"
  shows "chunk_file_consistent self fs (chain_of bs) p"
    and "(case po_load (block_storage self) fs p of
            Inl e \<Rightarrow> [] | Inr binary_data \<Rightarrow> unpack_blocks self binary_data) \<in> {xs. set xs \<subseteq> set bs}"
proof -
  from sound have s: "0 < block_chunk_size self" by (simp add: block_store_sound_def)
  from listed_chunks [OF sound inv p] obtain a e where
    r: "chunk_range self bs a e" "p = make_block_chunk_filename a e" by blast
  from chunk_range_valid [OF s r(1)] have v: "0 \<le> a" "a \<le> e" "e < int (length bs)" .
  note l = load_chunk [OF sound inv r(1)]
  note u = unpack_chunk [OF sound sub r(1)]
  from chunk_filename_meta [OF v(1,2)] l u chain_of_chunk [OF v(1,3)] r(2)
  show "chunk_file_consistent self fs (chain_of bs) p"
    by (simp add: chunk_file_consistent_def)
  from v(1,3) have "set (map (\<lambda>i. bs ! nat i) [a..e]) \<subseteq> set bs" by auto
  with l u r(2)
  show "(case po_load (block_storage self) fs p of
            Inl e \<Rightarrow> [] | Inr binary_data \<Rightarrow> unpack_blocks self binary_data) \<in> {xs. set xs \<subseteq> set bs}"
    by simp
qed

lemma stored_blocks_chunks:
  assumes sound: "block_store_sound self blocks"
    and inv: "blocks_stored self fs bs"
    and sub: "set bs \<subseteq> set blocks"
  shows "stored_blocks self fs =
           concat (map (chunk_blocks (chain_of bs))
                     (po_list_directory (block_storage self) fs (Some 1)))"
proof -
  from sound have s: "0 < block_chunk_size self" by (simp add: block_store_sound_def)
  have "(case po_load (block_storage self) fs p of
           Inl e \<Rightarrow> [] | Inr binary_data \<Rightarrow> unpack_blocks self binary_data)
        = chunk_blocks (chain_of bs) p"
    if p: "p \<in> set (po_list_directory (block_storage self) fs (Some 1))" for p
  proof -
    from listed_chunks [OF sound inv p] obtain a e where
      r: "chunk_range self bs a e" "p = make_block_chunk_filename a e" by blast
    from chunk_range_valid [OF s r(1)] have v: "0 \<le> a" "a \<le> e" "e < int (length bs)" .
    from chunk_filename_meta [OF v(1,2)] load_chunk [OF sound inv r(1)]
      unpack_chunk [OF sound sub r(1)] chain_of_chunk [OF v(1,3)] r(2)
    show ?thesis by (simp add: chunk_blocks_def)
  qed
  then show ?thesis unfolding stored_blocks_def by (simp cong: map_cong)
qed

lemma stored_blocks_subset:
  assumes sound: "block_store_sound self blocks"
    and inv: "blocks_stored self fs bs"
    and sub: "set bs \<subseteq> set blocks"
  shows "set (stored_blocks self fs) \<subseteq> set bs"
  using stored_chunk_consistent(2) [OF sound inv sub, of _ "Some 1"]
  unfolding stored_blocks_def by auto

lemma cache_of_store_consistent:
  assumes sound: "block_store_sound self blocks"
    and inv: "blocks_stored self fs bs"
    and sub: "set bs \<subseteq> set blocks"
    and c: "cache_of_store self fs cache"
  shows "cache_consistent cache (chain_of bs)"
proof -
  from inv have i1: "\<forall>i<length bs. block_number (message (bs ! i)) = int i"
    by (simp add: blocks_stored_def)
  have "snd entry = chain_of bs (fst entry)" if e: "entry \<in> set (entries cache)" for entry
  proof -
    from c e have "snd entry \<in> set (stored_blocks self fs)"
      "block_number (message (snd entry)) = fst entry"
      by (auto simp: cache_of_store_def list_all_iff)
    with stored_blocks_subset [OF sound inv sub] have "snd entry \<in> set bs"
      "block_number (message (snd entry)) = fst entry" by auto
    then obtain i where
      i: "i < length bs" "snd entry = bs ! i" "block_number (message (bs ! i)) = fst entry"
      by (metis in_set_conv_nth)
    with i1 have "fst entry = int i" by auto
    with i show ?thesis by (simp add: chain_of_def)
  qed
  with c show ?thesis by (simp add: cache_consistent_def cache_of_store_def list_all_iff)
qed

lemma stored_store_consistent:
  assumes sound: "block_store_sound self blocks"
    and inv: "blocks_stored self (disk w) bs"
    and sub: "set bs \<subseteq> set blocks"
    and c: "cache_of_store self (disk w) cache"
  shows "store_consistent self (w\<lparr>blocks_cache := cache\<rparr>) (chain_of bs)"
proof -
  from inv have "numbered (chain_of bs)" by (intro numbered_chain_of) (simp add: blocks_stored_def)
  moreover note cache_of_store_consistent [OF sound inv sub c]
  moreover have "list_all (chunk_file_consistent self (disk w) (chain_of bs))
        (po_list_directory (block_storage self) (disk w) (Some 1))"
    unfolding list_all_iff using stored_chunk_consistent(1) [OF sound inv sub] by blast
  ultimately show ?thesis by (simp add: store_consistent_def)
qed

subsection \<open>The states that \<^verbatim>\<open>add_block\<close> reaches\<close>

lemma last_block_number_of_chunks:
  assumes s: "0 < block_chunk_size self"
    and ps: "\<forall>p\<in>set ps. \<exists>a e. chunk_range self bs a e \<and> p = make_block_chunk_filename a e"
  shows "\<exists>r. last_block_number_of ps = Inr r \<and> - 1 \<le> r \<and> r < int (length bs) \<and>
             (\<forall>a e. chunk_range self bs a e \<longrightarrow> make_block_chunk_filename a e \<in> set ps \<longrightarrow> e \<le> r)"
  using ps
proof (induction ps)
  case Nil
  then show ?case by simp
next
  case (Cons p ps)
  from Cons.prems obtain a e where
    r: "chunk_range self bs a e" "p = make_block_chunk_filename a e" by auto
  from chunk_range_valid [OF s r(1)] have v: "0 \<le> a" "a \<le> e" "e < int (length bs)" .
  from Cons.prems have "\<forall>p\<in>set ps. \<exists>a e. chunk_range self bs a e \<and> p = make_block_chunk_filename a e"
    by simp
  from Cons.IH [OF this] obtain r0 where
    r0: "last_block_number_of ps = Inr r0" "- 1 \<le> r0" "r0 < int (length bs)"
    "\<And>a e. chunk_range self bs a e \<Longrightarrow> make_block_chunk_filename a e \<in> set ps \<Longrightarrow> e \<le> r0"
    by blast
  from chunk_filename_meta [OF v(1,2)] r(2) r0(1)
  have l: "last_block_number_of (p # ps) = Inr (max e r0)" by simp
  have "e' \<le> max e r0"
    if c: "chunk_range self bs a' e'" and m: "make_block_chunk_filename a' e' \<in> set (p # ps)" for a' e'
  proof (cases "make_block_chunk_filename a' e' = p")
    case True
    from chunk_range_valid [OF s c] have "0 \<le> a'" "a' \<le> e'" by simp_all
    from chunk_filename_inj [OF this v(1,2)] True r(2) show ?thesis by simp
  next
    case False
    with m have "make_block_chunk_filename a' e' \<in> set ps" by simp
    from r0(4) [OF c this] show ?thesis by simp
  qed
  with l r0(2,3) v(3) show ?case by auto
qed

lemma get_last_block_number_stored:
  assumes sound: "block_store_sound self blocks"
    and inv: "blocks_stored self (disk w) bs"
  shows "get_last_block_number self w = Inr (int (length bs) - 1)"
proof -
  let ?n = "int (length bs)" and ?s = "block_chunk_size self"
  let ?ps = "po_list_directory (block_storage self) (disk w) (Some 1)"
  from sound have s: "0 < ?s" by (simp add: block_store_sound_def)
  from listed_chunks [OF sound inv]
  have "\<forall>p\<in>set ?ps. \<exists>a e. chunk_range self bs a e \<and> p = make_block_chunk_filename a e" by blast
  from last_block_number_of_chunks [OF s this] obtain r where
    r: "last_block_number_of ?ps = Inr r" "- 1 \<le> r" "r < ?n"
    "\<And>a e. chunk_range self bs a e \<Longrightarrow> make_block_chunk_filename a e \<in> set ?ps \<Longrightarrow> e \<le> r"
    by blast
  have "?n - 1 \<le> r"
  proof (cases "bs = []")
    case True
    with r(2) show ?thesis by simp
  next
    case False
    then have pos: "0 \<le> ?n - 1" by (cases bs) simp_all
    let ?a = "(?n - 1) - (?n - 1) mod ?s"
    from current_chunk_bounds [OF s pos]
    have b: "0 \<le> ?a" "?a \<le> ?n - 1" "?n - 1 < ?a + ?s" "?a mod ?s = 0" by simp_all
    then have c: "chunk_range self bs ?a (?n - 1)" by (simp add: chunk_range_def)
    from r(4) [OF c chunks_listed [OF sound inv c]] show ?thesis .
  qed
  with r(1,3) show ?thesis
    by (simp add: get_last_block_number_def list_block_directory'_def)
qed

lemma empty_store_stored:
  assumes "po_list_directory (block_storage self) fs None = []"
  shows "blocks_stored self fs []"
proof -
  have "map_of (files fs) q = None" if "prefix (block_directory self) q" for q
  proof (rule ccontr)
    assume "map_of (files fs) q \<noteq> None"
    then have "q \<in> fst ` set (files fs)" by (simp add: map_of_eq_None_iff)
    with that have "set (po_list_directory (block_storage self) fs None) \<noteq> {}"
      unfolding set_po_list_directory block_directory_def by blast
    with assms show False by simp
  qed
  moreover have "\<not> chunk_range self [] a e" for a e by (simp add: chunk_range_def)
  ultimately show ?thesis by (simp add: blocks_stored_def)
qed

lemma cache_of_blocks_snoc: "cache_of_blocks cache bs \<Longrightarrow> cache_of_blocks cache (bs @ [b])"
  by (auto simp: cache_of_blocks_def list_all_iff nth_append)

lemma cache_of_blocks_set:
  assumes "cache_of_blocks cache bs" "lru_set cache (int (length bs)) b = Inr cache'"
  shows "cache_of_blocks cache' (bs @ [b])"
proof -
  from lru_set_entries [OF assms(2)]
  have "set (entries cache') \<subseteq> insert (int (length bs), b) (set (entries cache))" .
  with cache_of_blocks_snoc [OF assms(1), of b] show ?thesis
    by (auto simp: cache_of_blocks_def list_all_iff)
qed

lemma lru_set_maxsize: "lru_set cache k v = Inr cache' \<Longrightarrow> maxsize cache' = maxsize cache"
  by (auto simp: lru_set_def Let_def split: if_splits)

lemma add_block_stored:
  assumes sound: "block_store_sound self blocks"
    and inv: "blocks_stored self (disk w) bs"
    and sub: "set bs \<subseteq> set blocks"
    and cache: "tracked \<longrightarrow> cache_of_blocks (blocks_cache w) bs"
    and b: "b \<in> set blocks"
    and run: "add_block self w b contended = (r, w')"
  shows "\<exists>bs'. blocks_stored self (disk w') bs' \<and> set bs' \<subseteq> set blocks \<and>
               (tracked \<longrightarrow> cache_of_blocks (blocks_cache w') bs') \<and>
               maxsize (blocks_cache w') = maxsize (blocks_cache w)"
proof (cases contended)
  case True
  with run have "w' = w" by (simp add: add_block_def lock_method_def)
  with inv sub cache show ?thesis by blast
next
  case False
  let ?w = "w\<lparr>is_locked := True\<rparr>"
  obtain r1 w1 where body: "BlockchainBase_add_block self ?w b = (r1, w1)"
    by (cases "BlockchainBase_add_block self ?w b")
  with run False have w': "w' = w1\<lparr>is_locked := is_locked w\<rparr>"
    by (simp add: add_block_def lock_method_def)
  from inv have inv1: "blocks_stored self (disk ?w) bs" by simp
  note last = get_last_block_number_stored [OF sound inv1]
  have "\<exists>bs'. blocks_stored self (disk w1) bs' \<and> set bs' \<subseteq> set blocks \<and>
               (tracked \<longrightarrow> cache_of_blocks (blocks_cache w1) bs') \<and>
               maxsize (blocks_cache w1) = maxsize (blocks_cache w)"
  proof (cases "block_number (message b) = int (length bs)")
    case False
    with body last have "w1 = ?w" by (simp add: BlockchainBase_add_block_def)
    with inv sub cache show ?thesis by auto
  next
    case num: True
    obtain r2 w2 where p: "persist_block self ?w b = (r2, w2)"
      by (cases "persist_block self ?w b")
    from persist_block_stored [OF sound inv1 num p]
    have c2: "blocks_cache w2 = blocks_cache w"
      and o: "blocks_stored self (disk w2) bs \<and> (\<exists>e. r2 = Inl e) \<or>
              blocks_stored self (disk w2) (bs @ [b])" by simp_all
    from o show ?thesis
    proof
      assume a: "blocks_stored self (disk w2) bs \<and> (\<exists>e. r2 = Inl e)"
      with body last num p have "w1 = w2" by (auto simp: BlockchainBase_add_block_def)
      with a c2 sub cache show ?thesis by auto
    next
      assume a: "blocks_stored self (disk w2) (bs @ [b])"
      from sub b have sub': "set (bs @ [b]) \<subseteq> set blocks" by simp
      show ?thesis
      proof (cases "\<exists>c. r2 = Inr () \<and> lru_set (blocks_cache w2) (int (length bs)) b = Inr c")
        case True
        then obtain c where c: "r2 = Inr ()" "lru_set (blocks_cache w2) (int (length bs)) b = Inr c"
          by blast
        with body last num p have "w1 = w2\<lparr>blocks_cache := c\<rparr>"
          by (simp add: BlockchainBase_add_block_def)
        moreover have "tracked \<longrightarrow> cache_of_blocks c (bs @ [b])"
          using cache_of_blocks_set [of "blocks_cache w" bs b c] c(2) c2 cache by auto
        moreover from lru_set_maxsize [OF c(2)] c2 have "maxsize c = maxsize (blocks_cache w)" by simp
        ultimately have "blocks_stored self (disk w1) (bs @ [b]) \<and> set (bs @ [b]) \<subseteq> set blocks \<and>
               (tracked \<longrightarrow> cache_of_blocks (blocks_cache w1) (bs @ [b])) \<and>
               maxsize (blocks_cache w1) = maxsize (blocks_cache w)"
          using a sub' by simp
        then show ?thesis by (rule exI)
      next
        case False
        with body last num p have "w1 = w2"
          by (cases r2; cases "lru_set (blocks_cache w2) (int (length bs)) b")
             (auto simp: BlockchainBase_add_block_def)
        with a c2 sub' cache cache_of_blocks_snoc [of "blocks_cache w" bs b]
        have "blocks_stored self (disk w1) (bs @ [b]) \<and> set (bs @ [b]) \<subseteq> set blocks \<and>
               (tracked \<longrightarrow> cache_of_blocks (blocks_cache w1) (bs @ [b])) \<and>
               maxsize (blocks_cache w1) = maxsize (blocks_cache w)"
          by auto
        then show ?thesis by (rule exI)
      qed
    qed
  qed
  with w' show ?thesis by simp
qed

lemma add_blocks_stored:
  assumes sound: "block_store_sound self blocks"
    and calls: "set (map fst calls) \<subseteq> set blocks"
    and inv: "blocks_stored self (disk w) bs"
    and sub: "set bs \<subseteq> set blocks"
    and cache: "tracked \<longrightarrow> cache_of_blocks (blocks_cache w) bs"
  shows "\<exists>bs'. blocks_stored self (disk (snd (add_blocks self w calls))) bs' \<and>
               set bs' \<subseteq> set blocks \<and>
               (tracked \<longrightarrow> cache_of_blocks (blocks_cache (snd (add_blocks self w calls))) bs') \<and>
               maxsize (blocks_cache (snd (add_blocks self w calls))) = maxsize (blocks_cache w)"
  using calls inv sub cache
proof (induction calls arbitrary: w bs)
  case Nil
  then show ?case by auto
next
  case (Cons call calls)
  obtain b contended where call: "call = (b, contended)" by (cases call)
  obtain r w1 where a: "add_block self w b contended = (r, w1)"
    by (cases "add_block self w b contended")
  from Cons.prems(1) call have b: "b \<in> set blocks" and rest: "set (map fst calls) \<subseteq> set blocks"
    by simp_all
  from add_block_stored [OF sound Cons.prems(2,3,4) b a] obtain bs1 where
    s1: "blocks_stored self (disk w1) bs1" "set bs1 \<subseteq> set blocks"
    "tracked \<longrightarrow> cache_of_blocks (blocks_cache w1) bs1" "maxsize (blocks_cache w1) = maxsize (blocks_cache w)"
    by blast
  from Cons.IH [OF rest s1(1,2,3)] s1(4)
  have "\<exists>bs'. blocks_stored self (disk (snd (add_blocks self w1 calls))) bs' \<and>
               set bs' \<subseteq> set blocks \<and>
               (tracked \<longrightarrow> cache_of_blocks (blocks_cache (snd (add_blocks self w1 calls))) bs') \<and>
               maxsize (blocks_cache (snd (add_blocks self w1 calls))) = maxsize (blocks_cache w)"
    by simp
  moreover have "snd (add_blocks self w (call # calls)) = snd (add_blocks self w1 calls)"
    using call a by (simp split: prod.splits)
  ultimately show ?case by simp
qed

subsection \<open>The caches that \<^verbatim>\<open>add_block\<close> leaves\<close>

lemma block_is_stored:
  assumes sound: "block_store_sound self blocks"
    and inv: "blocks_stored self fs bs"
    and sub: "set bs \<subseteq> set blocks"
    and i: "i < length bs"
  shows "bs ! i \<in> set (stored_blocks self fs)"
proof -
  let ?n = "int (length bs)" and ?s = "block_chunk_size self"
  let ?a = "int i - int i mod ?s"
  let ?e = "min (?a + ?s - 1) (?n - 1)"
  from sound have s: "0 < ?s" by (simp add: block_store_sound_def)
  have "0 \<le> int i" by simp
  from current_chunk_bounds [OF s this]
  have b: "0 \<le> ?a" "?a \<le> int i" "int i < ?a + ?s" "?a mod ?s = 0" by simp_all
  with i have r: "chunk_range self bs ?a ?e" by (simp add: chunk_range_def)
  from b i have "int i \<in> set [?a..?e]" by simp
  moreover have "bs ! i = (\<lambda>k. bs ! nat k) (int i)" by simp
  ultimately have "bs ! i \<in> (\<lambda>k. bs ! nat k) ` set [?a..?e]" by (rule rev_image_eqI)
  then have m: "bs ! i \<in> set (map (\<lambda>k. bs ! nat k) [?a..?e])" by (simp only: set_map)
  note l = load_chunk [OF sound inv r]
  note u = unpack_chunk [OF sound sub r]
  note c = chunks_listed [OF sound inv r, of "Some 1"]
  let ?F = "\<lambda>file_path. case po_load (block_storage self) fs file_path of
                      Inl e \<Rightarrow> [] | Inr binary_data \<Rightarrow> unpack_blocks self binary_data"
  from l u m have "bs ! i \<in> set (?F (make_block_chunk_filename ?a ?e))" by simp
  with c show ?thesis unfolding stored_blocks_def by auto
qed

lemma cache_of_blocks_store:
  assumes sound: "block_store_sound self blocks"
    and inv: "blocks_stored self fs bs"
    and sub: "set bs \<subseteq> set blocks"
    and c: "cache_of_blocks cache bs" "1 \<le> maxsize cache"
  shows "cache_of_store self fs cache"
proof -
  from inv have i1: "\<forall>i<length bs. block_number (message (bs ! i)) = int i"
    by (simp add: blocks_stored_def)
  have "snd entry \<in> set (stored_blocks self fs) \<and> block_number (message (snd entry)) = fst entry"
    if e: "entry \<in> set (entries cache)" for entry
  proof -
    from c(1) e have k: "0 \<le> fst entry" "fst entry < int (length bs)" "snd entry = bs ! nat (fst entry)"
      by (auto simp: cache_of_blocks_def list_all_iff)
    from k(1,2) have i: "nat (fst entry) < length bs" by linarith
    from block_is_stored [OF sound inv sub i] i1 i k(1,3) show ?thesis by simp
  qed
  with c(2) show ?thesis by (simp add: cache_of_store_def list_all_iff)
qed

subsection \<open>The small blockchain is a sound store of blocks\<close>

lemma unat_succ_byte: "n < 255 \<Longrightarrow> unat (n + 1 :: 8 word) = Suc (unat n)"
  by (simp add: unat_word_ariths word_less_nat_alt)

lemma rle_round_trip: "rle_decode (rle_encode xs) = Inr xs"
proof (induction xs)
  case Nil
  then show ?case by simp
next
  case (Cons x xs)
  show ?case
  proof (cases "rle_encode xs")
    case Nil
    with Cons.IH have "xs = []" by simp
    with Nil show ?thesis by simp
  next
    case c: (Cons n r)
    show ?thesis
    proof (cases r)
      case Nil
      with c Cons.IH show ?thesis by simp
    next
      case (Cons y rest)
      with c Cons.IH obtain zs where
        zs: "rle_decode rest = Inr zs" "xs = replicate (unat n) y @ zs"
        by (auto split: sum.splits)
      show ?thesis
      proof (cases "y = x \<and> n < 255")
        case True
        with c Cons zs unat_succ_byte [of n] show ?thesis by simp
      next
        case False
        with c Cons zs show ?thesis by auto
      qed
    qed
  qed
qed

lemma split_on_no_sep: "sep \<notin> set s \<Longrightarrow> split_on sep s = [s]"
  by (induction s) auto

lemma sample_path:
  assumes "is_digit d" "CHR ''/'' \<notin> set rest" "CHR 0x00 \<notin> set rest"
  shows "get_absolute_path' (storage (sample_chain_storage ''blocks''))
           (d # CHR ''/'' # d # rest)
         = Inr (''/chain/blocks/'' @ d # CHR ''/'' # d # rest)"
proof -
  from assms(1) have d: "d \<noteq> CHR ''/''" "d \<noteq> CHR ''.''" by (auto simp: is_digit_def)
  from is_digit_not_null [OF assms(1)] assms(3)
  have nn: "CHR 0x00 \<notin> set (d # CHR ''/'' # d # rest)" by simp
  from assms(2) d(1) have "CHR ''/'' \<notin> set (d # rest)" by simp
  from split_on_no_sep [OF this] d(1)
  have sp: "split_on CHR ''/'' (d # CHR ''/'' # d # rest) = [[d], d # rest]" by simp
  from d(2) have pp: "path_parts (d # CHR ''/'' # d # rest) = [[d], d # rest]"
    unfolding path_parts_def sp by simp
  from d show ?thesis
    unfolding get_absolute_path'_def pp if_not_P [OF nn]
    by (simp add: is_absolute_def sample_chain_storage_def str_path_def)
qed

lemma chunk_filename_head:
  assumes "0 \<le> a" "0 \<le> e"
  shows "\<exists>d rest. make_block_chunk_filename a e = d # rest \<and> is_digit d \<and>
                  CHR ''/'' \<notin> set rest \<and> CHR 0x00 \<notin> set rest"
proof -
  from zfill_str_int_not_Nil [OF assms(1), of ORDER_OF_BLOCK] obtain d za where
    za: "zfill (str_int a) ORDER_OF_BLOCK = d # za" by (cases "zfill (str_int a) ORDER_OF_BLOCK") auto
  with zfill_str_int_digits [OF assms(1), of ORDER_OF_BLOCK] have d: "is_digit d" by simp
  from za have n: "make_block_chunk_filename a e
      = d # (za @ ''-'' @ zfill (str_int e) ORDER_OF_BLOCK @ ''-block-chunk.msgpack'')"
    by (simp add: make_block_chunk_filename_def)
  with chunk_filename_no_slash [OF assms] have "CHR ''/'' \<notin> set (za @ ''-'' @ zfill (str_int e) ORDER_OF_BLOCK @ ''-block-chunk.msgpack'')"
    by simp
  moreover from n chunk_filename_no_null [OF assms]
  have "CHR 0x00 \<notin> set (za @ ''-'' @ zfill (str_int e) ORDER_OF_BLOCK @ ''-block-chunk.msgpack'')"
    by simp
  ultimately show ?thesis using n d by blast
qed

lemma sample_codec:
  assumes "set bs \<subseteq> sample_block ` {0..<256}"
  shows "unpack_blocks (sample_blockchain s)
           (concat (map (block_to_messagepack (sample_blockchain s)) bs)) = bs"
  using assms
proof (induction bs)
  case Nil
  then show ?case by (simp add: sample_blockchain_def)
next
  case (Cons b bs)
  then obtain k where k: "b = sample_block k" "0 \<le> k" "k < 256" by auto
  then have "uint (word_of_int k :: 8 word) = k" by (simp add: uint_word_of_int take_bit_eq_mod)
  with k(1) have "sample_block (uint (word_of_int (block_number (message b)) :: 8 word)) = b"
    by (simp add: sample_block_def)
  with Cons show ?case by (simp add: sample_blockchain_def)
qed

lemma sample_blockchain_sound:
  assumes "0 < s" "set blocks \<subseteq> sample_block ` {0..<256}"
  shows "block_store_sound (sample_blockchain s) blocks"
proof -
  let ?S = "block_storage (sample_blockchain s)"
  have st: "?S = sample_chain_storage ''blocks''" by (simp add: sample_blockchain_def)
  have dir: "block_directory (sample_blockchain s) = ''/chain/blocks/''"
    by (simp add: block_directory_def st sample_chain_storage_def)
  have paths: "get_absolute_path' (storage ?S)
                 (make_optimized_file_path ?S (make_block_chunk_filename a e))
               = Inr (block_directory (sample_blockchain s) @
                      make_optimized_file_path ?S (make_block_chunk_filename a e)) \<and>
             logical_file_path ?S (make_optimized_file_path ?S (make_block_chunk_filename a e))
               = make_block_chunk_filename a e \<and>
             suffix (make_block_chunk_filename a e)
               (make_optimized_file_path ?S (make_block_chunk_filename a e))"
    if "0 \<le> a \<and> a \<le> e" for a e
  proof -
    from that have "0 \<le> a" "0 \<le> e" by simp_all
    from chunk_filename_head [OF this] obtain d rest where
      n: "make_block_chunk_filename a e = d # rest" "is_digit d" "CHR ''/'' \<notin> set rest"
      "CHR 0x00 \<notin> set rest" by blast
    have m: "make_optimized_file_path ?S (d # rest) = d # CHR ''/'' # d # rest"
      by (simp add: st sample_chain_storage_def)
    have l: "logical_file_path ?S (d # CHR ''/'' # d # rest) = d # rest"
      by (simp add: st sample_chain_storage_def)
    have "suffix (d # rest) ([d, CHR ''/''] @ d # rest)" by (rule suffix_appendI) simp
    then have sf: "suffix (d # rest) (d # CHR ''/'' # d # rest)" by simp
    from sample_path [OF n(2,3,4)] have "get_absolute_path' (storage ?S) (d # CHR ''/'' # d # rest)
         = Inr (''/chain/blocks/'' @ d # CHR ''/'' # d # rest)" by (simp only: st)
    with l sf show ?thesis unfolding n(1) m dir by simp
  qed
  have rt: "decompressed_with (library (storage ?S)) c (compressed_with (library (storage ?S)) c d)
            = Inr d" if "c \<in> set (compressors (storage ?S))" for c d
    using that
    by (simp add: st sample_chain_storage_def sample_library_def decompressed_with_def
          compressed_with_def COMPRESSION_FUNCTIONS_def DECOMPRESSION_FUNCTIONS_def rle_round_trip)
  have codec: "unpack_blocks (sample_blockchain s)
           (concat (map (block_to_messagepack (sample_blockchain s)) bs)) = bs"
    if "set bs \<subseteq> set blocks" for bs
    using that assms(2) by (intro sample_codec) blast
  have cs: "0 < block_chunk_size (sample_blockchain s)" using assms(1) by (simp add: sample_blockchain_def)
  from cs paths rt codec show ?thesis
    unfolding block_store_sound_def Let_def by blast
qed

subsection \<open>Both directions of the iteration after any calls of \<^verbatim>\<open>add_block\<close>\<close>

text \<open>
  Claim C6. Let the store of blocks be sound for the blocks handed to \<^verbatim>\<open>add_block\<close>
  (positive chunk size, a path rewrite that the store resolves and that can be undone,
  compressors that their decompressors undo, and a codec that gives the added blocks
  back), and let the directory of the store hold no file at the start. Then in the state
  after any sequence of calls of \<^verbatim>\<open>add_block\<close>, whatever each call returned or raised, and
  with every content of the cache of blocks that holds blocks of the store under their
  numbers and can hold a block, both \<^verbatim>\<open>yield_blocks\<close> and \<^verbatim>\<open>yield_blocks_reversed\<close> end
  without an exception and the sequence of \<^verbatim>\<open>yield_blocks\<close> is the reverse of the sequence
  of \<^verbatim>\<open>yield_blocks_reversed\<close>, whether the second runs in the same state or in the state
  the first has left; the sequence of \<^verbatim>\<open>yield_blocks\<close> is the blocks that the chunk files
  of the store unpack to, in the order of the listing. The cache that the calls
  themselves leave, when they started from an empty cache that can hold a block, is such
  a content.
\<close>

theorem yield_blocks_reversed_is_reverse:
  assumes sound: "block_store_sound self (map fst calls)"
    and empty: "po_list_directory (block_storage self) (disk w0) None = []"
  shows "(entries (blocks_cache w0) = [] \<and> 1 \<le> maxsize (blocks_cache w0) \<longrightarrow>
            cache_of_store self (disk (snd (add_blocks self w0 calls)))
              (blocks_cache (snd (add_blocks self w0 calls)))) \<and>
         (\<forall>cache. cache_of_store self (disk (snd (add_blocks self w0 calls))) cache \<longrightarrow>
            (let w = (snd (add_blocks self w0 calls))\<lparr>blocks_cache := cache\<rparr> in
             fst (snd (yield_blocks self w)) = None \<and>
             fst (snd (yield_blocks_reversed self w)) = None \<and>
             map fst (fst (yield_blocks self w)) = rev (map fst (fst (yield_blocks_reversed self w))) \<and>
             map fst (fst (yield_blocks self w)) =
               rev (map fst (fst (yield_blocks_reversed self (snd (snd (yield_blocks self w)))))) \<and>
             map fst (fst (yield_blocks self w)) =
               stored_blocks self (disk (snd (add_blocks self w0 calls)))))"
proof -
  let ?w = "snd (add_blocks self w0 calls)"
  let ?t = "entries (blocks_cache w0) = []"
  note e = empty_store_stored [OF empty]
  have t: "?t \<longrightarrow> cache_of_blocks (blocks_cache w0) []" by (simp add: cache_of_blocks_def)
  from add_blocks_stored [OF sound subset_refl e _ t] obtain bs where
    bs: "blocks_stored self (disk ?w) bs" "set bs \<subseteq> set (map fst calls)"
    "?t \<longrightarrow> cache_of_blocks (blocks_cache ?w) bs" "maxsize (blocks_cache ?w) = maxsize (blocks_cache w0)"
    by auto
  have a: "cache_of_store self (disk ?w) (blocks_cache ?w)" if "?t" "1 \<le> maxsize (blocks_cache w0)"
    using cache_of_blocks_store [OF sound bs(1,2)] bs(3,4) that by simp
  have b: "fst (snd (yield_blocks self (?w\<lparr>blocks_cache := cache\<rparr>))) = None \<and>
           fst (snd (yield_blocks_reversed self (?w\<lparr>blocks_cache := cache\<rparr>))) = None \<and>
           map fst (fst (yield_blocks self (?w\<lparr>blocks_cache := cache\<rparr>)))
             = rev (map fst (fst (yield_blocks_reversed self (?w\<lparr>blocks_cache := cache\<rparr>)))) \<and>
           map fst (fst (yield_blocks self (?w\<lparr>blocks_cache := cache\<rparr>))) =
             rev (map fst (fst (yield_blocks_reversed self
                    (snd (snd (yield_blocks self (?w\<lparr>blocks_cache := cache\<rparr>))))))) \<and>
           map fst (fst (yield_blocks self (?w\<lparr>blocks_cache := cache\<rparr>))) =
             stored_blocks self (disk ?w)"
    if c: "cache_of_store self (disk ?w) cache" for cache
  proof -
    note sc = stored_store_consistent [OF sound bs(1,2) c]
    from yield_blocks_consistent [OF sc] obtain ys c' where
      "yield_blocks self (?w\<lparr>blocks_cache := cache\<rparr>)
         = (ys, None, ?w\<lparr>blocks_cache := cache\<rparr>\<lparr>blocks_cache := c'\<rparr>)"
      "map fst ys = concat (map (chunk_blocks (chain_of bs))
          (po_list_directory (block_storage self) (disk (?w\<lparr>blocks_cache := cache\<rparr>)) (Some 1)))"
      by blast
    with stored_blocks_chunks [OF sound bs(1,2)]
    have "map fst (fst (yield_blocks self (?w\<lparr>blocks_cache := cache\<rparr>)))
          = stored_blocks self (disk ?w)" by simp
    with consistent_store_yields_reverse [OF sc] show ?thesis by blast
  qed
  from a b show ?thesis unfolding Let_def by blast
qed

theorem yield_blocks_reversed_is_reverse_witness:
  "block_store_sound (sample_blockchain 2) (map fst three_blocks_added) \<and>
   po_list_directory (block_storage (sample_blockchain 2)) (disk (sample_world [] [])) None = [] \<and>
   fst (add_blocks (sample_blockchain 2) (sample_world [] []) three_blocks_added) =
     [Inr (), Inr (), Inl BlockchainLockedError, Inr (), Inl ValidationError] \<and>
   cache_of_store (sample_blockchain 2)
     (disk (snd (add_blocks (sample_blockchain 2) (sample_world [] []) three_blocks_added)))
     (blocks_cache (snd (add_blocks (sample_blockchain 2) (sample_world [] []) three_blocks_added))) \<and>
   cache_of_store (sample_blockchain 2)
     (disk (snd (add_blocks (sample_blockchain 2) (sample_world [] []) three_blocks_added)))
     \<lparr>maxsize = 1, entries = [(1, sample_block 1)]\<rparr> \<and>
   map (\<lambda>y. block_number (message (fst y)))
     (fst (yield_blocks (sample_blockchain 2)
        ((snd (add_blocks (sample_blockchain 2) (sample_world [] []) three_blocks_added))
           \<lparr>blocks_cache := \<lparr>maxsize = 1, entries = [(1, sample_block 1)]\<rparr>\<rparr>))) = [0, 1, 2] \<and>
   map fst
     (fst (yield_blocks (sample_blockchain 2)
        ((snd (add_blocks (sample_blockchain 2) (sample_world [] []) three_blocks_added))
           \<lparr>blocks_cache := \<lparr>maxsize = 1, entries = [(1, sample_block 1)]\<rparr>\<rparr>))) =
   rev (map fst
     (fst (yield_blocks_reversed (sample_blockchain 2)
        ((snd (add_blocks (sample_blockchain 2) (sample_world [] []) three_blocks_added))
           \<lparr>blocks_cache := \<lparr>maxsize = 1, entries = [(1, sample_block 1)]\<rparr>\<rparr>))))"
proof -
  let ?chain = "sample_blockchain 2" and ?init = "sample_world [] []"
  let ?w = "snd (add_blocks ?chain ?init three_blocks_added)"
  let ?c = "\<lparr>maxsize = 1, entries = [(1, sample_block 1)]\<rparr> :: (int, Block) LRUCache"
  have m: "sample_block k \<in> sample_block ` {0..<256}" if "0 \<le> k" "k < 256" for k
    using that by (intro imageI) simp
  have "set (map fst three_blocks_added) \<subseteq> sample_block ` {0..<256}"
    unfolding three_blocks_added_def using m [of 0] m [of 1] m [of 2] m [of 7] by simp
  with sample_blockchain_sound [of 2 "map fst three_blocks_added"]
  have s: "block_store_sound ?chain (map fst three_blocks_added)" by simp
  have e: "po_list_directory (block_storage ?chain) (disk ?init) None = []"
    by code_simp
  have r: "fst (add_blocks ?chain ?init three_blocks_added) =
     [Inr (), Inr (), Inl BlockchainLockedError, Inr (), Inl ValidationError]" by code_simp
  have c: "cache_of_store ?chain (disk ?w) ?c" by code_simp
  have f: "entries (blocks_cache ?init) = [] \<and> 1 \<le> maxsize (blocks_cache ?init)" by code_simp
  have y: "map (\<lambda>y. block_number (message (fst y)))
     (fst (yield_blocks ?chain (?w\<lparr>blocks_cache := ?c\<rparr>))) = [0, 1, 2]" by code_simp
  note T = yield_blocks_reversed_is_reverse [OF s e]
  note a = T [THEN conjunct1, rule_format, OF f]
  note b = T [THEN conjunct2, rule_format, OF c, unfolded Let_def]
  note b3 = b [THEN conjunct2, THEN conjunct2, THEN conjunct1]
  show ?thesis
    apply (intro conjI)
          apply (rule s)
         apply (rule e)
        apply (rule r)
       apply (rule a)
      apply (rule c)
     apply (rule y)
    apply (rule b3)
    done
qed

section \<open>Properties of the dictionary codec\<close>

lemma deserialize_str_list_JStr: "deserialize_str_list (map JStr xs) = Inr xs"
  by (induction xs) (simp_all add: coerce_str_def)

lemma Node_round_trip:
  "Node_deserialize_from_dict (JDict (AList.delete ''identifier'' (Node_serialize_to_dict n)))
     = Inr (n\<lparr>identifier_of := None\<rparr>)"
  by (cases "identifier_of n"; cases "fee_account n")
     (simp_all add: Node_serialize_to_dict_def Node_deserialize_from_dict_def missing_keys_def
        coerce_str_def coerce_int_def deserialize_str_list_JStr)

lemma Node_serialize_not_empty: "Node_serialize_to_dict n \<noteq> []"
  by (cases "identifier_of n") (simp_all add: Node_serialize_to_dict_def)

lemma PrimaryValidatorSchedule_round_trip:
  "PrimaryValidatorSchedule_deserialize_from_dict
     (JDict (PrimaryValidatorSchedule_serialize_to_dict pvs)) = Inr pvs"
  by (simp add: PrimaryValidatorSchedule_serialize_to_dict_def
        PrimaryValidatorSchedule_deserialize_from_dict_def missing_keys_def coerce_int_def)

lemma AccountState_round_trip:
  "AccountState_deserialize_from_dict
     (compact_account_state account_number (JDict (AccountState_serialize_to_dict a)))
   = Inr (a\<lparr>balance_lock := (if balance_lock a = Some account_number then None else balance_lock a),
            node := map_option (\<lambda>n. n\<lparr>identifier_of := None\<rparr>) (node a)\<rparr>)"
  by (cases "balance a"; cases "balance_lock a"; cases "node a";
      cases "primary_validator_schedule a")
     (simp_all add: AccountState_serialize_to_dict_def AccountState_deserialize_from_dict_def
        compact_account_state_def Let_def coerce_str_def coerce_int_def Node_round_trip
        Node_serialize_not_empty PrimaryValidatorSchedule_round_trip)


lemma deserialize_account_states_round_trip:
  "deserialize_account_states
     (map (\<lambda>(account_number, account_state).
             (account_number, compact_account_state account_number account_state))
        (map (\<lambda>(account_number, account_state).
                (account_number, JDict (AccountState_serialize_to_dict account_state))) accs))
   = Inr (map (\<lambda>(account_number, a). (account_number, canonical_account_state account_number a))
            accs)"
proof (induction accs)
  case Nil
  then show ?case by simp
next
  case (Cons x accs)
  obtain k a where x: "x = (k, a)" by (cases x)
  have "(case node a of
           Some n \<Rightarrow> a\<lparr>balance_lock := (if balance_lock a = Some k then None else balance_lock a),
                        node := Some (n\<lparr>identifier_of := Some k\<rparr>)\<rparr>
         | None \<Rightarrow> a\<lparr>balance_lock := (if balance_lock a = Some k then None else balance_lock a),
                      node := None\<rparr>) = canonical_account_state k a"
    by (cases "node a") (simp_all add: canonical_account_state_def)
  with Cons x show ?case
    by (cases "node a") (simp_all add: AccountState_round_trip canonical_account_state_def)
qed

lemma BlockchainStateMessage_round_trip_canonical:
  "BlockchainStateMessage_deserialize_from_dict (BlockchainStateMessage_serialize_to_dict s)
     = Inr (canonical_state s)"
  by (cases "last_block_number s"; cases "last_block_identifier s";
      cases "last_block_timestamp s"; cases "next_block_identifier s")
     (simp_all add: BlockchainStateMessage_serialize_to_dict_def
        BlockchainStateMessage_deserialize_from_dict_def Let_def coerce_str_def coerce_int_def
        deserialize_account_states_round_trip canonical_state_def del: map_map)

lemma canonical_account_state_compact:
  "balance_lock a \<noteq> Some k \<Longrightarrow>
   (case node a of None \<Rightarrow> True | Some n \<Rightarrow> identifier_of n = Some k) \<Longrightarrow>
   canonical_account_state k a = a"
  by (cases "node a") (auto simp: canonical_account_state_def)

lemma canonical_state_compact: "compact_form s \<Longrightarrow> canonical_state s = s"
proof -
  assume c: "compact_form s"
  have "list_all (\<lambda>(k, a). balance_lock a \<noteq> Some k \<and>
          (case node a of None \<Rightarrow> True | Some n \<Rightarrow> identifier_of n = Some k)) accs \<Longrightarrow>
        map (\<lambda>(k, a). (k, canonical_account_state k a)) accs = accs" for accs
    by (induction accs) (auto simp: canonical_account_state_compact)
  with c show ?thesis by (simp add: compact_form_def canonical_state_def)
qed

text \<open>
  Claim C7, as the code has it. The blockchain state whose one account has its own
  number as balance lock does not come back from its serialization:
  \<^verbatim>\<open>serialize_to_dict\<close> deletes the balance lock, and \<^verbatim>\<open>deserialize_from_dict\<close>, which
  restores only the identifier of a node, leaves it \<^verbatim>\<open>None\<close>.
\<close>

theorem blockchain_state_round_trip_not_identity:
  "BlockchainStateMessage_deserialize_from_dict
     (BlockchainStateMessage_serialize_to_dict self_locked_state) \<noteq> Inr self_locked_state"
  by code_simp

text \<open>
  Claim C7, amended: for every blockchain state in compact form, that is with no
  account that has its own number as balance lock and with every node identified by
  the number of its account, including the optional attributes of its account states,
  deserialization of the serialized state gives the state back. (For any state it gives
  the canonical state, lemma \<open>BlockchainStateMessage_round_trip_canonical\<close>.)
\<close>

theorem blockchain_state_round_trip:
  "compact_form s \<Longrightarrow>
   BlockchainStateMessage_deserialize_from_dict (BlockchainStateMessage_serialize_to_dict s) = Inr s"
  by (simp add: BlockchainStateMessage_round_trip_canonical canonical_state_compact)

theorem blockchain_state_round_trip_witness:
  "compact_form sample_node_state \<and>
   BlockchainStateMessage_deserialize_from_dict
     (BlockchainStateMessage_serialize_to_dict sample_node_state) = Inr sample_node_state"
proof -
  have c: "compact_form sample_node_state" by code_simp
  from blockchain_state_round_trip [OF c] c show ?thesis by simp
qed

end
